theory Spec2Isabelle
  imports Main
begin

section \<open>Python values and exceptions\<close>

text \<open>
  Strings are Isabelle strings: lists of 8-bit characters, read as the code points
  0 to 255 of a Python \<open>str\<close> (an HTTP header value decoded by \<open>requests\<close> is
  exactly such a string).  An exception that leaves a function is the \<open>Inl\<close> side of
  its result.
\<close>

datatype error =
    ValueError
  | TypeError
  | AttributeError
  | OSError
  | RequestError
  | JSONDecodeError
  | SystemExit
  | OverflowError

definition py_isspace :: "char \<Rightarrow> bool" where
  \<comment> \<open>\<open>str.isspace\<close> on the code points below 256\<close>
  "py_isspace c =
     (of_char c \<in> {9, 10, 11, 12, 13, 28, 29, 30, 31, 32, 133, 160 :: nat})"

definition strip :: "string \<Rightarrow> string" where
  \<comment> \<open>\<open>s.strip()\<close>\<close>
  "strip s = rev (dropWhile py_isspace (rev (dropWhile py_isspace s)))"

definition is_digit :: "char \<Rightarrow> bool" where
  "is_digit c = (48 \<le> (of_char c :: nat) \<and> (of_char c :: nat) \<le> 57)"

definition digit_val :: "char \<Rightarrow> int" where
  "digit_val c = int (of_char c) - 48"

fun digits_ok :: "string \<Rightarrow> bool" where
  \<comment> \<open>decimal digits, single underscores allowed between two digits\<close>
  "digits_ok [] = False"
| "digits_ok [c] = is_digit c"
| "digits_ok (c # d # r) =
     (is_digit c \<and> (if d = CHR ''_'' then digits_ok r else digits_ok (d # r)))"

definition digits_value :: "string \<Rightarrow> int" where
  "digits_value ds =
     foldl (\<lambda>n c. 10 * n + digit_val c) 0 (filter (\<lambda>c. c \<noteq> CHR ''_'') ds)"

definition INT_MAX_STR_DIGITS :: nat where
  \<comment> \<open>\<open>sys.get_int_max_str_digits()\<close>, which the program leaves at its default\<close>
  "INT_MAX_STR_DIGITS = 4300"

definition parse_digits :: "string \<Rightarrow> int option" where
  \<comment> \<open>a literal of more than 4300 digits, leading zeros counted, is refused\<close>
  "parse_digits ds =
     (if digits_ok ds \<and> length (filter is_digit ds) \<le> INT_MAX_STR_DIGITS
      then Some (digits_value ds) else None)"

definition int_isspace :: "char \<Rightarrow> bool" where
  \<comment> \<open>the white space \<open>int\<close> skips around a literal: unlike \<open>str.isspace\<close> it
      leaves the separators 28 to 31 in place, and the literal is then refused\<close>
  "int_isspace c = (of_char c \<in> {9, 10, 11, 12, 13, 32, 133, 160 :: nat})"

definition py_int :: "string \<Rightarrow> int option" where
  \<comment> \<open>\<open>int(s)\<close> of a string: \<open>None\<close> stands for the ValueError it raises\<close>
  "py_int s =
     (case rev (dropWhile int_isspace (rev (dropWhile int_isspace s))) of
        [] \<Rightarrow> None
      | c # r \<Rightarrow>
          if c = CHR ''-'' then map_option uminus (parse_digits r)
          else if c = CHR ''+'' then parse_digits r
          else parse_digits (c # r))"

text \<open>
  A parsed JSON document, as \<open>resp.json()\<close> returns it.  An object is kept as the
  list of its members; \<open>d.get(k)\<close> looks a key up in it.  \<open>JNum\<close> carries an
  integer: the code only ever tests a number for truth or for its type, where a float
  behaves like an integer of the same zero-ness.
\<close>

datatype json =
    JNull
  | JBool bool
  | JNum int
  | JStr string
  | JArr "json list"
  | JObj "(string \<times> json) list"

fun truthy :: "json \<Rightarrow> bool" where
  \<comment> \<open>Python's truth value of a JSON value\<close>
  "truthy JNull = False"
| "truthy (JBool b) = b"
| "truthy (JNum n) = (n \<noteq> 0)"
| "truthy (JStr s) = (s \<noteq> [])"
| "truthy (JArr xs) = (xs \<noteq> [])"
| "truthy (JObj kvs) = (kvs \<noteq> [])"

definition py_or :: "json \<Rightarrow> json \<Rightarrow> json" where
  \<comment> \<open>\<open>a or b\<close>\<close>
  "py_or a b = (if truthy a then a else b)"

definition lookup :: "(string \<times> json) list \<Rightarrow> string \<Rightarrow> json" where
  \<comment> \<open>\<open>d.get(k)\<close> on a dict: \<open>None\<close> when the key is missing\<close>
  "lookup kvs k = (case map_of kvs k of None \<Rightarrow> JNull | Some v \<Rightarrow> v)"

fun dict_get :: "json \<Rightarrow> string \<Rightarrow> error + json" where
  \<comment> \<open>\<open>x.get(k)\<close> on any value: only a dict has the method\<close>
  "dict_get (JObj kvs) k = Inr (lookup kvs k)"
| "dict_get _ k = Inl AttributeError"

fun startswith :: "string \<Rightarrow> string \<Rightarrow> bool" where
  \<comment> \<open>\<open>s.startswith(p)\<close>\<close>
  "startswith s [] = True"
| "startswith [] (p # ps) = False"
| "startswith (c # s) (p # ps) = (c = p \<and> startswith s ps)"

fun contains :: "string \<Rightarrow> string \<Rightarrow> bool" where
  \<comment> \<open>\<open>p in s\<close> for strings\<close>
  "contains p [] = (p = [])"
| "contains p (c # s) = (startswith (c # s) p \<or> contains p s)"

section \<open>The retrying downloader (\<open>download_with_retries\<close>)\<close>

text \<open>
  What one \<open>requests.get(url, stream=True, timeout=120)\<close> and the use of its response
  can do.  \<open>ConnError\<close>: the call itself raises a \<open>requests.RequestException\<close>
  (connection failure, timeout).  \<open>Status code retry_after body\<close>: a response arrives
  with that status code and that \<open>Retry-After\<close> header (\<open>None\<close> when absent);
  \<open>body\<close> says what happens if the code goes on to create the directory, open the
  destination and copy the stream.
\<close>

datatype body_outcome =
    Written      \<comment> \<open>directory made, file opened, every chunk written\<close>
  | StreamError  \<comment> \<open>\<open>iter_content\<close> raises a \<open>RequestException\<close> while streaming\<close>
  | DiskError    \<comment> \<open>\<open>mkdir\<close>, \<open>open\<close> or \<open>write\<close> raises \<open>OSError\<close>\<close>

datatype dl_response =
    ConnError
  | Status int "string option" body_outcome

text \<open>
  The body of the \<open>try\<close> block for one attempt.  \<open>Returned\<close>: \<open>return True\<close>.
  \<open>Slept d\<close>: the 503 branch slept \<open>d\<close> seconds and reached \<open>continue\<close>.
  \<open>Caught\<close>: a \<open>RequestException\<close> was raised, which the \<open>except\<close> clause
  catches.  \<open>Raised e\<close>: another exception was raised; nothing catches it.
\<close>

datatype attempt_result = Returned | Slept int | Caught | Raised error

text \<open>
  \<open>time.sleep(secs)\<close> of an integer, as CPython 3.11 does it on Linux; \<open>None\<close> when
  it sleeps and returns.  The seconds are converted to a signed 64-bit count of
  nanoseconds (OverflowError when they do not fit), a negative length is refused
  (ValueError), and the deadline is the reading \<open>now\<close> of the monotonic clock, in
  nanoseconds, plus that count: past \<open>2^63 - 1\<close> the sum wraps to a negative deadline,
  which \<open>clock_nanosleep\<close> refuses (OSError, \<open>EINVAL\<close>).
\<close>

definition time_sleep :: "int \<Rightarrow> int \<Rightarrow> error option" where
  "time_sleep now secs =
     (if secs * 10 ^ 9 < - (2 ^ 63) \<or> 2 ^ 63 - 1 < secs * 10 ^ 9 then Some OverflowError
      else if secs < 0 then Some ValueError
      else if 2 ^ 63 - 1 < now + secs * 10 ^ 9 then Some OSError
      else None)"

definition retry_after_seconds :: "string option \<Rightarrow> int option" where
  \<comment> \<open>\<open>int(resp.headers.get("Retry-After", "30"))\<close>\<close>
  "retry_after_seconds hdr = py_int (case hdr of None \<Rightarrow> ''30'' | Some h \<Rightarrow> h)"

definition try_attempt :: "int \<Rightarrow> dl_response \<Rightarrow> attempt_result" where
  \<comment> \<open>\<open>now\<close>: the reading of the monotonic clock when the attempt goes to sleep\<close>
  "try_attempt now resp =
     (case resp of
        ConnError \<Rightarrow> Caught
      | Status code hdr body \<Rightarrow>
          if code = 503 then
            (case retry_after_seconds hdr of
               None \<Rightarrow> Raised ValueError
             | Some retry_after \<Rightarrow>
                 (case time_sleep now retry_after of
                    Some e \<Rightarrow> Raised e
                  | None \<Rightarrow> Slept retry_after))
          else if 400 \<le> code \<and> code < 600 then Caught  \<comment> \<open>\<open>raise_for_status\<close>\<close>
          else
            (case body of
               Written \<Rightarrow> Returned
             | StreamError \<Rightarrow> Caught
             | DiskError \<Rightarrow> Raised OSError))"

text \<open>
  The result of a download: what the call returns or raises, how many requests it
  made, and the sleeps it took, in order.
\<close>

record dl_result =
  outcome :: "error + bool"
  requests :: int
  slept :: "int list"

text \<open>
  The \<open>while attempt <= max_retries\<close> loop.  \<open>env n\<close> is the server's and the file
  system's behaviour at the \<open>n\<close>-th attempt (counted from 1, as \<open>attempt\<close> is after
  its increment), and \<open>clock n\<close> the reading of the monotonic clock during it.  Every
  iteration makes exactly one request, so the final value of \<open>attempt\<close> is the number
  of requests made.  The backoff \<open>time.sleep(5 * attempt)\<close> is taken to return: it is
  refused only when the clock is within \<open>5 * attempt\<close> seconds of the end of its
  64-bit range, which the clock reaches after 292 years.
\<close>

function dl_loop ::
  "(int \<Rightarrow> int) \<Rightarrow> (int \<Rightarrow> dl_response) \<Rightarrow> int \<Rightarrow> int \<Rightarrow> int list \<Rightarrow> dl_result"
where
  "dl_loop clock env max_retries attempt sl =
     (if attempt \<le> max_retries then
        (case try_attempt (clock (attempt + 1)) (env (attempt + 1)) of
           Returned \<Rightarrow> \<lparr>outcome = Inr True, requests = attempt + 1, slept = sl\<rparr>
         | Raised e \<Rightarrow> \<lparr>outcome = Inl e, requests = attempt + 1, slept = sl\<rparr>
         | Slept d \<Rightarrow> dl_loop clock env max_retries (attempt + 1) (sl @ [d])
         | Caught \<Rightarrow>
             if attempt + 1 > max_retries
             then \<lparr>outcome = Inr False, requests = attempt + 1, slept = sl\<rparr>
             else dl_loop clock env max_retries (attempt + 1) (sl @ [5 * (attempt + 1)]))
      else \<lparr>outcome = Inr False, requests = attempt, slept = sl\<rparr>)"
  by pat_completeness auto
termination
  by (relation
      "measure (\<lambda>(clock, env, max_retries, attempt, sl). nat (max_retries + 1 - attempt))")
    auto

definition download_with_retries ::
  "(int \<Rightarrow> int) \<Rightarrow> (int \<Rightarrow> dl_response) \<Rightarrow> int \<Rightarrow> dl_result"
where
  "download_with_retries clock env max_retries = dl_loop clock env max_retries 0 []"

declare dl_loop.simps [simp del]

text \<open>
  An attempt that fails without being the 503 answer: the request raises, the status
  is another 4xx or 5xx (\<open>raise_for_status\<close> raises \<open>HTTPError\<close>), or the stream
  breaks.  The \<open>except\<close> clause catches each of them.
\<close>

definition non_transient_failure :: "dl_response \<Rightarrow> bool" where
  "non_transient_failure resp =
     (case resp of
        ConnError \<Rightarrow> True
      | Status code hdr body \<Rightarrow>
          code \<noteq> 503 \<and> ((400 \<le> code \<and> code < 600) \<or> body = StreamError))"

section \<open>Discovery through the Published service (\<open>fetch_published_packages\<close>)\<close>

text \<open>
  What one page request can do: \<open>requests.get\<close> or \<open>raise_for_status\<close> raises a
  \<open>RequestException\<close>, \<open>resp.json()\<close> raises \<open>JSONDecodeError\<close> (that of the
  standard \<open>json\<close> module, from which \<open>requests\<close> derives its own when
  \<open>simplejson\<close> is not installed), or a document arrives.  A server is a function
  from the number of the request (from 0) and the cursor sent to what happens; a
  server that looks at the cursor only ignores the number.
\<close>

datatype page_response = RequestFailed | DecodeFailed | Page json

type_synonym server = "nat \<Rightarrow> string \<Rightarrow> page_response"

definition MAX_PAGE_SIZE :: int where
  "MAX_PAGE_SIZE = 1000"

record package_record =
  package_id :: json
  date_issued :: json
  raw :: json

text \<open>
  \<open>next_offset_from_nextpage\<close>.  \<open>qs s\<close> stands for
  \<open>parse_qs(urlparse(s).query).get("offsetMark")\<close>: \<open>Some\<close> of the list of values
  (empty when the parameter is missing), or \<open>None\<close> when \<open>urlparse\<close> raises its
  ValueError.  A value that is not a string makes
  \<open>"offsetMark=" in next_page\<close> raise TypeError (a number, \<open>True\<close>) or, when the
  test succeeds on a list or a dict, \<open>next_page.startswith\<close> raise AttributeError.
\<close>

type_synonym query_parser = "string \<Rightarrow> string list option"

definition next_offset_from_nextpage :: "query_parser \<Rightarrow> json \<Rightarrow> error + json" where
  "next_offset_from_nextpage qs next_page =
     (if \<not> truthy next_page then Inr JNull
      else
        (case next_page of
           JStr s \<Rightarrow>
             if contains ''offsetMark='' s \<and> startswith s ''http'' then
               (case qs s of
                  None \<Rightarrow> Inl ValueError
                | Some [] \<Rightarrow> Inr next_page
                | Some (v # vs) \<Rightarrow> Inr (JStr v))
             else Inr next_page
         | JArr xs \<Rightarrow>
             if JStr ''offsetMark='' \<in> set xs then Inl AttributeError else Inr next_page
         | JObj kvs \<Rightarrow>
             if ''offsetMark='' \<in> fst ` set kvs then Inl AttributeError else Inr next_page
         | _ \<Rightarrow> Inl TypeError))"

text \<open>
  The search for the item list under the keys \<open>packages\<close>, \<open>results\<close>, \<open>records\<close>:
  the first key whose value is a list wins, also when that list is empty.
\<close>

fun find_items :: "json \<Rightarrow> string list \<Rightarrow> error + json list" where
  "find_items data [] = Inr []"
| "find_items data (key # keys) =
     (case dict_get data key of
        Inl e \<Rightarrow> Inl e
      | Inr (JArr xs) \<Rightarrow> Inr xs
      | Inr _ \<Rightarrow> find_items data keys)"

text \<open>
  One item of a page: \<open>None\<close> when it has no identifier and is skipped, the record
  that is appended otherwise.
\<close>

fun item_record :: "json \<Rightarrow> error + package_record option" where
  "item_record (JObj kvs) =
     (let pkg_id = py_or (lookup kvs ''packageId'') (lookup kvs ''package_id'') in
      if \<not> truthy pkg_id then Inr None
      else
        Inr (Some \<lparr>package_id = pkg_id,
                   date_issued = py_or (lookup kvs ''dateIssued'') (lookup kvs ''date_issued''),
                   raw = JObj kvs\<rparr>))"
| "item_record _ = Inl AttributeError"

definition cap_reached :: "int option \<Rightarrow> package_record list \<Rightarrow> bool" where
  \<comment> \<open>\<open>max_packages is not None and len(packages) >= max_packages\<close>\<close>
  "cap_reached max_packages pkgs =
     (case max_packages of None \<Rightarrow> False | Some m \<Rightarrow> int (length pkgs) \<ge> m)"

text \<open>
  The \<open>for item in items\<close> loop.  The flag of the result says whether the loop left
  through \<open>return packages\<close> (the cap was reached).
\<close>

fun process_items ::
  "int option \<Rightarrow> json list \<Rightarrow> package_record list \<Rightarrow> error + bool \<times> package_record list"
where
  "process_items max_packages [] pkgs = Inr (False, pkgs)"
| "process_items max_packages (item # items) pkgs =
     (case item_record item of
        Inl e \<Rightarrow> Inl e
      | Inr None \<Rightarrow> process_items max_packages items pkgs
      | Inr (Some r) \<Rightarrow>
          if cap_reached max_packages (pkgs @ [r]) then Inr (True, pkgs @ [r])
          else process_items max_packages items (pkgs @ [r]))"

text \<open>
  The state of the \<open>while True\<close> loop: the three variables of the source, and the
  cursors of the requests made so far (the model's record of the requests; its length
  is the number of the next request).
\<close>

record fetch_state =
  offset_mark :: string
  seen_offsets :: "string set"
  packages :: "package_record list"
  requested :: "string list"

datatype ('s, 'r) loop_step = Again 's | Exit 'r

type_synonym fetch_result = "error + package_record list \<times> string list"

definition fetch_page ::
  "query_parser \<Rightarrow> server \<Rightarrow> int option \<Rightarrow> fetch_state \<Rightarrow> (fetch_state, fetch_result) loop_step"
where
  "fetch_page qs srv max_packages st =
     (let log = requested st @ [offset_mark st] in
      case srv (length (requested st)) (offset_mark st) of
        RequestFailed \<Rightarrow> Exit (Inr (packages st, log))
      | DecodeFailed \<Rightarrow> Exit (Inr (packages st, log))
      | Page data \<Rightarrow>
          (case find_items data [''packages'', ''results'', ''records''] of
             Inl e \<Rightarrow> Exit (Inl e)
           | Inr items \<Rightarrow>
               if items = [] then Exit (Inr (packages st, log))
               else
                 (case process_items max_packages items (packages st) of
                    Inl e \<Rightarrow> Exit (Inl e)
                  | Inr (True, pkgs) \<Rightarrow> Exit (Inr (pkgs, log))
                  | Inr (False, pkgs) \<Rightarrow>
                      (case dict_get data ''nextPage'' of
                         Inl e \<Rightarrow> Exit (Inl e)
                       | Inr next_page_val \<Rightarrow>
                           (case next_offset_from_nextpage qs next_page_val of
                              Inl e \<Rightarrow> Exit (Inl e)
                            | Inr next_offset \<Rightarrow>
                                if \<not> truthy next_offset then Exit (Inr (pkgs, log))
                                else
                                  (case next_offset of
                                     JStr s \<Rightarrow>
                                       if s \<in> seen_offsets st then Exit (Inr (pkgs, log))
                                       else
                                         Again \<lparr>offset_mark = s,
                                                seen_offsets = insert s (seen_offsets st),
                                                packages = pkgs,
                                                requested = log\<rparr>
                                   | _ \<Rightarrow> Exit (Inl TypeError)))))))"

partial_function (option) fetch_loop ::
  "query_parser \<Rightarrow> server \<Rightarrow> int option \<Rightarrow> fetch_state \<Rightarrow> fetch_result option"
where
  "fetch_loop qs srv max_packages st =
     (case fetch_page qs srv max_packages st of
        Exit r \<Rightarrow> Some r
      | Again st' \<Rightarrow> fetch_loop qs srv max_packages st')"

definition fetch_published_packages ::
  "query_parser \<Rightarrow> server \<Rightarrow> string list \<Rightarrow> int \<Rightarrow> int option \<Rightarrow> fetch_result option"
where
  \<comment> \<open>the joined \<open>coll_param\<close> is empty exactly when no code is left after stripping\<close>
  "fetch_published_packages qs srv collections page_size max_packages =
     (if page_size \<le> 0 \<or> page_size > MAX_PAGE_SIZE then Some (Inl ValueError)
      else if [c \<leftarrow> map strip collections. c \<noteq> []] = [] then Some (Inl ValueError)
      else
        fetch_loop qs srv max_packages
          \<lparr>offset_mark = ''*'', seen_offsets = {}, packages = [], requested = []\<rparr>)"

text \<open>
  Vocabulary for the properties of a discovery run.  \<open>page_records resp\<close> are the
  records a page contributes when it is processed to its end: those of its items that
  carry an identifier.  \<open>page_next qs resp\<close> is the cursor the response leads to: the
  normalised \<open>nextPage\<close> of a page that has items.  \<open>records_upto srv reqs k\<close> are the
  records of the first \<open>k\<close> requests of the log \<open>reqs\<close>.  \<open>cursor_chain\<close> says that
  every request after the first was made with the cursor the request before it
  returned.
\<close>

definition good_records :: "json list \<Rightarrow> package_record list" where
  "good_records items =
     List.map_filter (\<lambda>item. case item_record item of Inr (Some r) \<Rightarrow> Some r | _ \<Rightarrow> None) items"

definition page_records :: "page_response \<Rightarrow> package_record list" where
  "page_records resp =
     (case resp of
        Page data \<Rightarrow>
          (case find_items data [''packages'', ''results'', ''records''] of
             Inr items \<Rightarrow> good_records items
           | Inl e \<Rightarrow> [])
      | _ \<Rightarrow> [])"

definition page_next :: "query_parser \<Rightarrow> page_response \<Rightarrow> string option" where
  "page_next qs resp =
     (case resp of
        Page data \<Rightarrow>
          (case find_items data [''packages'', ''results'', ''records''] of
             Inr (item # items) \<Rightarrow>
               (case dict_get data ''nextPage'' of
                  Inr v \<Rightarrow>
                    (case next_offset_from_nextpage qs v of
                       Inr (JStr s) \<Rightarrow> if s = [] then None else Some s
                     | _ \<Rightarrow> None)
                | Inl e \<Rightarrow> None)
           | _ \<Rightarrow> None)
      | _ \<Rightarrow> None)"

definition records_upto :: "server \<Rightarrow> string list \<Rightarrow> nat \<Rightarrow> package_record list" where
  "records_upto srv reqs k = concat (map (\<lambda>i. page_records (srv i (reqs ! i))) [0..<k])"

definition cursor_chain :: "query_parser \<Rightarrow> server \<Rightarrow> string list \<Rightarrow> bool" where
  "cursor_chain qs srv reqs =
     (\<forall>k. Suc k < length reqs \<longrightarrow> page_next qs (srv k (reqs ! k)) = Some (reqs ! Suc k))"

text \<open>The invariant of the loop, and what holds of a result it returns.\<close>

definition fetch_inv :: "query_parser \<Rightarrow> server \<Rightarrow> fetch_state \<Rightarrow> bool" where
  "fetch_inv qs srv st =
     ((\<exists>rest. requested st @ [offset_mark st] = ''*'' # rest \<and>
              seen_offsets st = set rest \<and> distinct rest) \<and>
      cursor_chain qs srv (requested st @ [offset_mark st]) \<and>
      packages st = records_upto srv (requested st @ [offset_mark st]) (length (requested st)))"

definition fetch_post :: "query_parser \<Rightarrow> server \<Rightarrow> int option \<Rightarrow> fetch_result \<Rightarrow> bool" where
  "fetch_post qs srv m r =
     (case r of
        Inl e \<Rightarrow> True
      | Inr (pkgs, reqs) \<Rightarrow>
          (\<exists>rest. reqs = ''*'' # rest \<and> distinct rest) \<and>
          cursor_chain qs srv reqs \<and>
          (\<exists>n. pkgs = records_upto srv reqs (length reqs - 1) @
                  take n (page_records (srv (length reqs - 1) (last reqs)))) \<and>
          (cap_reached m pkgs \<or>
           (pkgs = records_upto srv reqs (length reqs) \<and>
            (case page_next qs (srv (length reqs - 1) (last reqs)) of
               None \<Rightarrow> True
             | Some c \<Rightarrow> c \<in> set (tl reqs)))))"

text \<open>
  \<open>run_to qs srv m n st\<close> is the state of the loop after \<open>n\<close> more iterations that
  each went on to a next request, \<open>None\<close> when the loop is left before.
\<close>

fun run_to ::
  "query_parser \<Rightarrow> server \<Rightarrow> int option \<Rightarrow> nat \<Rightarrow> fetch_state \<Rightarrow> fetch_state option"
where
  "run_to qs srv m 0 st = Some st"
| "run_to qs srv m (Suc n) st =
     (case fetch_page qs srv m st of
        Again st' \<Rightarrow> run_to qs srv m n st'
      | Exit r \<Rightarrow> None)"

text \<open>
  A response that the loop handles without an exception, whatever the cap: a failure,
  or a document that is an object, whose items are objects, and whose \<open>nextPage\<close> is
  absent or false, or a string (one that \<open>urlparse\<close> accepts when it is a URL).
\<close>

fun is_object :: "json \<Rightarrow> bool" where
  "is_object (JObj kvs) = True"
| "is_object _ = False"

definition wellformed_page :: "query_parser \<Rightarrow> page_response \<Rightarrow> bool" where
  "wellformed_page qs resp =
     (case resp of
        Page data \<Rightarrow>
          (case find_items data [''packages'', ''results'', ''records''] of
             Inl e \<Rightarrow> False
           | Inr items \<Rightarrow>
               list_all is_object items \<and>
               (case dict_get data ''nextPage'' of
                  Inl e \<Rightarrow> False
                | Inr v \<Rightarrow>
                    (case next_offset_from_nextpage qs v of
                       Inr JNull \<Rightarrow> True
                     | Inr (JStr s) \<Rightarrow> True
                     | _ \<Rightarrow> False)))
      | _ \<Rightarrow> True)"

section \<open>Discovery in the SQL ingest (\<open>fetch_packages_for_collection\<close>)\<close>

text \<open>
  \<open>get_json\<close> has no handler: a missing API key ends the process, and the exceptions
  of \<open>requests.get\<close>, \<open>raise_for_status\<close> and \<open>r.json()\<close> leave it.
\<close>

definition get_json :: "bool \<Rightarrow> page_response \<Rightarrow> error + json" where
  "get_json have_key resp =
     (if \<not> have_key then Inl SystemExit
      else
        (case resp of
           RequestFailed \<Rightarrow> Inl RequestError
         | DecodeFailed \<Rightarrow> Inl JSONDecodeError
         | Page data \<Rightarrow> Inr data))"

record sql_item =
  packageId :: json
  dateIssued :: json
  lastModified :: json

fun sql_item_of :: "json \<Rightarrow> error + sql_item" where
  "sql_item_of (JObj kvs) =
     Inr \<lparr>packageId = lookup kvs ''packageId'',
          dateIssued = lookup kvs ''dateIssued'',
          lastModified = lookup kvs ''lastModified''\<rparr>"
| "sql_item_of _ = Inl AttributeError"

fun collect_items :: "json list \<Rightarrow> sql_item list \<Rightarrow> error + sql_item list" where
  "collect_items [] acc = Inr acc"
| "collect_items (p # ps) acc =
     (case sql_item_of p of
        Inl e \<Rightarrow> Inl e
      | Inr it \<Rightarrow> collect_items ps (acc @ [it]))"

text \<open>
  \<open>for p in items\<close> over a value that is true: a list yields its elements; a string
  yields characters and a dict keys, neither of which has \<open>get\<close>; a number or \<open>True\<close>
  cannot be iterated.
\<close>

definition iterate_items :: "json \<Rightarrow> sql_item list \<Rightarrow> error + sql_item list" where
  "iterate_items items acc =
     (case items of
        JArr xs \<Rightarrow> collect_items xs acc
      | JStr s \<Rightarrow> Inl AttributeError
      | JObj kvs \<Rightarrow> Inl AttributeError
      | _ \<Rightarrow> Inl TypeError)"

fun after_last :: "string \<Rightarrow> string \<Rightarrow> string" where
  \<comment> \<open>\<open>s.split(p)[-1]\<close> for a separator \<open>p\<close> that occurs in \<open>s\<close> and cannot overlap itself\<close>
  "after_last p [] = []"
| "after_last p (c # s) =
     (if contains p s then after_last p s
      else if startswith (c # s) p then drop (length p) (c # s)
      else c # s)"

definition sql_next_offset :: "json \<Rightarrow> error + json" where
  "sql_next_offset nxt =
     (case nxt of
        JStr s \<Rightarrow>
          if contains ''offsetMark='' s then Inr (JStr (after_last ''offsetMark='' s))
          else Inr nxt
      | JArr xs \<Rightarrow> if JStr ''offsetMark='' \<in> set xs then Inl AttributeError else Inr nxt
      | JObj kvs \<Rightarrow> if ''offsetMark='' \<in> fst ` set kvs then Inl AttributeError else Inr nxt
      | _ \<Rightarrow> Inl TypeError)"

record sql_state =
  offset :: json
  all_items :: "sql_item list"
  asked :: "json list"

type_synonym sql_server = "nat \<Rightarrow> json \<Rightarrow> page_response"

type_synonym sql_result = "error + sql_item list \<times> json list"

definition sql_page :: "bool \<Rightarrow> sql_server \<Rightarrow> sql_state \<Rightarrow> (sql_state, sql_result) loop_step" where
  "sql_page have_key srv st =
     (let log = asked st @ [offset st] in
      case get_json have_key (srv (length (asked st)) (offset st)) of
        Inl e \<Rightarrow> Exit (Inl e)
      | Inr (JObj kvs) \<Rightarrow>
          (let items = py_or (py_or (lookup kvs ''packages'') (lookup kvs ''results'')) (JArr []) in
           if \<not> truthy items then Exit (Inr (all_items st, log))
           else
             (case iterate_items items (all_items st) of
                Inl e \<Rightarrow> Exit (Inl e)
              | Inr acc \<Rightarrow>
                  (let nxt = lookup kvs ''nextPage'' in
                   if \<not> truthy nxt then Exit (Inr (acc, log))
                   else
                     (case sql_next_offset nxt of
                        Inl e \<Rightarrow> Exit (Inl e)
                      | Inr off \<Rightarrow> Again \<lparr>offset = off, all_items = acc, asked = log\<rparr>))))
      | Inr _ \<Rightarrow> Exit (Inl AttributeError))"

partial_function (option) sql_loop :: "bool \<Rightarrow> sql_server \<Rightarrow> sql_state \<Rightarrow> sql_result option"
where
  "sql_loop have_key srv st =
     (case sql_page have_key srv st of
        Exit r \<Rightarrow> Some r
      | Again st' \<Rightarrow> sql_loop have_key srv st')"

definition fetch_packages_for_collection :: "bool \<Rightarrow> sql_server \<Rightarrow> sql_result option" where
  "fetch_packages_for_collection have_key srv =
     sql_loop have_key srv \<lparr>offset = JStr ''*'', all_items = [], asked = []\<rparr>"

section \<open>Servers used as concrete inputs\<close>

definition demo_item :: "string \<Rightarrow> json" where
  "demo_item pid = JObj [(''packageId'', JStr pid), (''dateIssued'', JStr ''2019-05-01'')]"

definition demo_page :: "string list \<Rightarrow> string \<Rightarrow> page_response" where
  "demo_page ids nxt =
     Page (JObj [(''packages'', JArr (map demo_item ids)), (''nextPage'', JStr nxt)])"

definition demo_record :: "string \<Rightarrow> package_record" where
  "demo_record pid =
     \<lparr>package_id = JStr pid, date_issued = JStr ''2019-05-01'', raw = demo_item pid\<rparr>"

definition no_query :: query_parser where
  "no_query s = Some []"

text \<open>Three pages; the third leads back to the cursor of the second.\<close>

definition cycle_server :: server where
  "cycle_server n c =
     (if c = ''*'' then demo_page [''A-1''] ''c1''
      else if c = ''c1'' then demo_page [''A-2''] ''c2''
      else demo_page [''A-3''] ''c1'')"

text \<open>One page that names the initial cursor as the next one.\<close>

definition star_server :: server where
  "star_server n c = demo_page [''A-1''] ''*''"

text \<open>Two pages that carry the same item.\<close>

definition duplicate_server :: server where
  "duplicate_server n c =
     (if c = ''*'' then demo_page [''A-1''] ''c1'' else demo_page [''A-1''] [])"

text \<open>Pages of two items each, without end.\<close>

definition endless_server :: server where
  "endless_server n c = demo_page [''A-1'', ''A-2''] (c @ ''x'')"

text \<open>A first page, then a network failure.\<close>

definition failing_server :: server where
  "failing_server n c = (if n = 0 then demo_page [''A-1''] ''c1'' else RequestFailed)"

text \<open>Two pages; the second leads back to the initial cursor.\<close>

definition return_server :: server where
  "return_server n c =
     (if c = ''*'' then demo_page [''A-1''] ''c1'' else demo_page [''A-2''] ''*'')"

text \<open>For the SQL ingest: a page that always names the same next cursor.\<close>

definition sql_cycle_server :: sql_server where
  "sql_cycle_server n c = demo_page [''A-1''] ''c1''"

text \<open>For the SQL ingest: a first page, then a network failure.\<close>

definition sql_failing_server :: sql_server where
  "sql_failing_server n c = (if n = 0 then demo_page [''A-1''] ''c1'' else RequestFailed)"

section \<open>Destination paths (\<open>package_collection_code\<close>, \<open>package_year_from_date\<close>)\<close>

text \<open>
  \<open>package_collection_code\<close>: the text before the first \<open>-\<close>, or \<open>UNKNOWN\<close> when
  the identifier has none.  The identifier of a record is whatever JSON value the
  server sent: on a number \<open>"-" in package_id\<close> raises TypeError; on a list or a dict
  the test looks for an element or a key, and \<open>split\<close> does not exist.
\<close>

definition collection_code_str :: "string \<Rightarrow> string" where
  "collection_code_str pid =
     (if CHR ''-'' \<in> set pid then takeWhile (\<lambda>c. c \<noteq> CHR ''-'') pid else ''UNKNOWN'')"

definition package_collection_code :: "json \<Rightarrow> error + string" where
  "package_collection_code pid =
     (case pid of
        JStr s \<Rightarrow> Inr (collection_code_str s)
      | JArr xs \<Rightarrow> if JStr ''-'' \<in> set xs then Inl AttributeError else Inr ''UNKNOWN''
      | JObj kvs \<Rightarrow> if ''-'' \<in> fst ` set kvs then Inl AttributeError else Inr ''UNKNOWN''
      | _ \<Rightarrow> Inl TypeError)"

text \<open>
  \<open>datetime.strptime\<close> for the three formats the code tries, giving the year or
  \<open>None\<close> for ValueError.  The fields are those of the regular expressions of
  \<open>_strptime\<close>: four digits for \<open>%Y\<close>; one or two digits in range for \<open>%m\<close>, \<open>%d\<close>,
  \<open>%H\<close>, \<open>%M\<close>, \<open>%S\<close> (a day may also be a space and a digit); the letters \<open>T\<close> and
  \<open>Z\<close> match in either case; the whole string must be used up.  The date must exist
  (year from 1, day within the month) and the second be below 60.
\<close>

definition str_value :: "string \<Rightarrow> nat" where
  "str_value s = foldl (\<lambda>n c. 10 * n + (of_char c - 48)) 0 s"

definition num_field :: "nat \<Rightarrow> nat \<Rightarrow> string \<Rightarrow> nat option" where
  "num_field lo hi s =
     (if list_all is_digit s \<and> (length s = 1 \<or> length s = 2)
         \<and> lo \<le> str_value s \<and> str_value s \<le> hi
      then Some (str_value s) else None)"

definition day_field :: "string \<Rightarrow> nat option" where
  "day_field s =
     (case s of
        [sp, c] \<Rightarrow>
          if sp = CHR '' '' then (if is_digit c \<and> c \<noteq> CHR ''0'' then Some (str_value [c]) else None)
          else num_field 1 31 s
      | _ \<Rightarrow> num_field 1 31 s)"

definition is_leap :: "nat \<Rightarrow> bool" where
  "is_leap y = (y mod 4 = 0 \<and> (y mod 100 \<noteq> 0 \<or> y mod 400 = 0))"

definition days_in_month :: "nat \<Rightarrow> nat \<Rightarrow> nat" where
  "days_in_month y m =
     (if m = 2 then (if is_leap y then 29 else 28)
      else if m = 4 \<or> m = 6 \<or> m = 9 \<or> m = 11 then 30
      else 31)"

definition cut :: "(char \<Rightarrow> bool) \<Rightarrow> string \<Rightarrow> (string \<times> string) option" where
  \<comment> \<open>the text before the first separator and the text after it\<close>
  "cut sep s =
     (case dropWhile (\<lambda>c. \<not> sep c) s of
        [] \<Rightarrow> None
      | c # r \<Rightarrow> Some (takeWhile (\<lambda>c. \<not> sep c) s, r))"

definition parse_ymd :: "string \<Rightarrow> nat option" where
  \<comment> \<open>\<open>%Y-%m-%d\<close>: the year of a date that exists\<close>
  "parse_ymd s =
     (if length s < 5 \<or> \<not> list_all is_digit (take 4 s) \<or> s ! 4 \<noteq> CHR ''-'' then None
      else
        (case cut (\<lambda>c. c = CHR ''-'') (drop 5 s) of
           None \<Rightarrow> None
         | Some (m, d) \<Rightarrow>
             (case (num_field 1 12 m, day_field d) of
                (Some mv, Some dv) \<Rightarrow>
                  if 1 \<le> str_value (take 4 s) \<and> dv \<le> days_in_month (str_value (take 4 s)) mv
                  then Some (str_value (take 4 s)) else None
              | _ \<Rightarrow> None)))"

definition parse_hms :: "string \<Rightarrow> bool" where
  \<comment> \<open>\<open>%H:%M:%S\<close>\<close>
  "parse_hms s =
     (case cut (\<lambda>c. c = CHR '':'') s of
        None \<Rightarrow> False
      | Some (h, r) \<Rightarrow>
          (case cut (\<lambda>c. c = CHR '':'') r of
             None \<Rightarrow> False
           | Some (mi, se) \<Rightarrow>
               num_field 0 23 h \<noteq> None \<and> num_field 0 59 mi \<noteq> None \<and> num_field 0 59 se \<noteq> None))"

datatype date_format = YMD | YMD_HMS_Z | YMD_HMS

definition strptime_year :: "string \<Rightarrow> date_format \<Rightarrow> nat option" where
  "strptime_year s fmt =
     (case fmt of
        YMD \<Rightarrow> parse_ymd s
      | YMD_HMS \<Rightarrow>
          (case cut (\<lambda>c. c = CHR ''T'' \<or> c = CHR ''t'') s of
             None \<Rightarrow> None
           | Some (d, t) \<Rightarrow> if parse_hms t then parse_ymd d else None)
      | YMD_HMS_Z \<Rightarrow>
          (case cut (\<lambda>c. c = CHR ''T'' \<or> c = CHR ''t'') s of
             None \<Rightarrow> None
           | Some (d, t) \<Rightarrow>
               if t \<noteq> [] \<and> (last t = CHR ''Z'' \<or> last t = CHR ''z'') \<and> parse_hms (butlast t)
               then parse_ymd d else None))"

definition digit_char :: "nat \<Rightarrow> char" where
  "digit_char n = ''0123456789'' ! n"

fun str_nat :: "nat \<Rightarrow> string" where
  \<comment> \<open>\<open>str(n)\<close>\<close>
  "str_nat n =
     (if n < 10 then [digit_char n] else str_nat (n div 10) @ [digit_char (n mod 10)])"

declare str_nat.simps [simp del]

definition py_isdigit :: "char \<Rightarrow> bool" where
  \<comment> \<open>\<open>str.isdigit\<close> on the code points below 256: the digits and the superscripts 1, 2, 3\<close>
  "py_isdigit c = (is_digit c \<or> of_char c \<in> {178, 179, 185 :: nat})"

fun try_formats :: "string \<Rightarrow> date_format list \<Rightarrow> string option" where
  \<comment> \<open>the \<open>for fmt in (...)\<close> loop: the first format that parses gives \<open>str(dt.year)\<close>\<close>
  "try_formats s [] = None"
| "try_formats s (fmt # fmts) =
     (case strptime_year (take 19 s) fmt of
        Some y \<Rightarrow> Some (str_nat y)
      | None \<Rightarrow> try_formats s fmts)"

definition year_str :: "string \<Rightarrow> string" where
  "year_str s =
     (case try_formats s [YMD, YMD_HMS_Z, YMD_HMS] of
        Some y \<Rightarrow> y
      | None \<Rightarrow>
          if take 4 s \<noteq> [] \<and> list_all py_isdigit (take 4 s) then take 4 s else ''unknown_year'')"

text \<open>
  \<open>package_year_from_date\<close> on the JSON value a record carries: a value that is not
  true gives the sentinel; a true value that is not a string cannot be sliced, or
  (a list) is refused by \<open>strptime\<close> with TypeError (a dict raises KeyError instead
  from Python 3.12 on).
\<close>

definition package_year_from_date :: "json \<Rightarrow> error + string" where
  "package_year_from_date d =
     (if \<not> truthy d then Inr ''unknown_year''
      else (case d of JStr s \<Rightarrow> Inr (year_str s) | _ \<Rightarrow> Inl TypeError))"

text \<open>
  Paths, as \<open>pathlib\<close> keeps them on POSIX: a root (empty, \<open>/\<close> or \<open>//\<close>) and the
  list of components.  \<open>p / s\<close> appends the components of \<open>s\<close> (empty ones and \<open>.\<close>
  dropped), unless \<open>s\<close> is absolute, which replaces \<open>p\<close>.
\<close>

record path =
  root :: string
  parts :: "string list"

fun split_on :: "char \<Rightarrow> string \<Rightarrow> string list" where
  "split_on sep [] = [[]]"
| "split_on sep (c # s) =
     (if c = sep then [] # split_on sep s
      else (case split_on sep s of [] \<Rightarrow> [[c]] | w # ws \<Rightarrow> (c # w) # ws))"

definition path_components :: "string \<Rightarrow> string list" where
  "path_components s = filter (\<lambda>w. w \<noteq> [] \<and> w \<noteq> ''.'') (split_on CHR ''/'' s)"

definition path_root :: "string \<Rightarrow> string" where
  "path_root s =
     (if startswith s ''//'' \<and> \<not> startswith s ''///'' then ''//''
      else if startswith s ''/'' then ''/''
      else [])"

definition path_div :: "path \<Rightarrow> string \<Rightarrow> path" where
  \<comment> \<open>\<open>p / s\<close>\<close>
  "path_div p s =
     (if startswith s ''/'' then \<lparr>root = path_root s, parts = path_components s\<rparr>
      else \<lparr>root = root p, parts = parts p @ path_components s\<rparr>)"


section \<open>The driver (\<open>fetch_package_summary\<close>, \<open>download_package_formats\<close>, the record loop)\<close>

definition DOWNLOAD_KEY_MAP :: "(string \<times> string) list" where
  "DOWNLOAD_KEY_MAP =
     [(''txt'', ''txtLink''), (''htm'', ''htmLink''), (''html'', ''htmLink''),
      (''xml'', ''xmlLink''), (''pdf'', ''pdfLink''), (''mods'', ''modsLink''),
      (''premis'', ''premisLink''), (''zip'', ''zipLink'')]"

definition py_lower :: "char \<Rightarrow> char" where
  \<comment> \<open>\<open>str.lower\<close> on the code points below 256\<close>
  "py_lower c =
     (let n = (of_char c :: nat) in
      if (65 \<le> n \<and> n \<le> 90) \<or> (192 \<le> n \<and> n \<le> 222 \<and> n \<noteq> 215) then char_of (n + 32) else c)"

definition lower :: "string \<Rightarrow> string" where
  "lower s = map py_lower s"

text \<open>
  What the driver meets outside itself: the answer to the summary request of a record
  (by its identifier), the behaviour of server and file system during the download of
  a URL to a destination (attempt by attempt) and the readings of the monotonic clock
  during it, and \<open>str\<close> of an identifier that is not a string, as the f-string of the
  file name formats it.
\<close>

record driver_env =
  summary_of :: "json \<Rightarrow> page_response"
  asset :: "json \<Rightarrow> path \<Rightarrow> int \<Rightarrow> dl_response"
  monotonic :: "json \<Rightarrow> path \<Rightarrow> int \<Rightarrow> int"
  py_str :: "json \<Rightarrow> string"

definition fetch_package_summary :: "page_response \<Rightarrow> json" where
  \<comment> \<open>\<open>None\<close> (here \<open>JNull\<close>) on a request or decoding failure\<close>
  "fetch_package_summary resp =
     (case resp of
        RequestFailed \<Rightarrow> JNull
      | DecodeFailed \<Rightarrow> JNull
      | Page data \<Rightarrow> data)"

text \<open>
  What the driver does for one format of one record: log the plan (dry run), or call
  \<open>download_with_retries\<close>, whose result it ignores.
\<close>

datatype dl_event =
    Planned json path
  | Downloaded json path bool

definition name_str :: "driver_env \<Rightarrow> json \<Rightarrow> string" where
  \<comment> \<open>\<open>f"{package.package_id}"\<close>\<close>
  "name_str env pid = (case pid of JStr s \<Rightarrow> s | _ \<Rightarrow> py_str env pid)"

fun format_loop ::
  "driver_env \<Rightarrow> json \<Rightarrow> json \<Rightarrow> string \<Rightarrow> string \<Rightarrow> path \<Rightarrow> bool \<Rightarrow> string list \<Rightarrow>
   error + dl_event list"
where
  "format_loop env pid download_info collection_code year base_output_dir dry_run [] = Inr []"
| "format_loop env pid download_info collection_code year base_output_dir dry_run (fmt # fmts) =
     (case map_of DOWNLOAD_KEY_MAP fmt of
        None \<Rightarrow> format_loop env pid download_info collection_code year base_output_dir dry_run fmts
      | Some link_key \<Rightarrow>
          (case dict_get download_info link_key of
             Inl e \<Rightarrow> Inl e
           | Inr url \<Rightarrow>
               if \<not> truthy url
               then format_loop env pid download_info collection_code year base_output_dir dry_run fmts
               else
                 (let dest = path_div (path_div (path_div base_output_dir collection_code) year)
                               (name_str env pid @ ''.'' @ fmt)
                  in
                  if dry_run then
                    map_sum id (\<lambda>evs. Planned url dest # evs)
                      (format_loop env pid download_info collection_code year base_output_dir
                         dry_run fmts)
                  else
                    (case outcome
                            (download_with_retries (monotonic env url dest) (asset env url dest) 3)
                     of
                       Inl e \<Rightarrow> Inl e
                     | Inr ok \<Rightarrow>
                         map_sum id (\<lambda>evs. Downloaded url dest ok # evs)
                           (format_loop env pid download_info collection_code year base_output_dir
                              dry_run fmts)))))"

definition download_package_formats ::
  "driver_env \<Rightarrow> package_record \<Rightarrow> string list \<Rightarrow> path \<Rightarrow> bool \<Rightarrow> error + dl_event list"
where
  "download_package_formats env package formats base_output_dir dry_run =
     (let fmt_list = [lower (strip f). f \<leftarrow> formats, strip f \<noteq> []] in
      if fmt_list = [] then Inr []
      else
        (let summary = fetch_package_summary (summary_of env (package_id package)) in
         if \<not> truthy summary then Inr []
         else
           (case dict_get summary ''download'' of
              Inl e \<Rightarrow> Inl e
            | Inr d \<Rightarrow>
                (let download_info = py_or d (JObj []) in
                 if \<not> truthy download_info then Inr []
                 else
                   (case package_collection_code (package_id package) of
                      Inl e \<Rightarrow> Inl e
                    | Inr collection_code \<Rightarrow>
                        (case package_year_from_date (date_issued package) of
                           Inl e \<Rightarrow> Inl e
                         | Inr year \<Rightarrow>
                             format_loop env (package_id package) download_info collection_code
                               year base_output_dir dry_run fmt_list))))))"

text \<open>
  The \<open>for idx, pkg in enumerate(packages, start=1)\<close> loop of
  \<open>handle_download_command\<close>: an exception of one record ends the loop.
\<close>

fun process_packages ::
  "driver_env \<Rightarrow> package_record list \<Rightarrow> string list \<Rightarrow> path \<Rightarrow> bool \<Rightarrow> error + dl_event list"
where
  "process_packages env [] formats base_output_dir dry_run = Inr []"
| "process_packages env (pkg # pkgs) formats base_output_dir dry_run =
     (case download_package_formats env pkg formats base_output_dir dry_run of
        Inl e \<Rightarrow> Inl e
      | Inr evs \<Rightarrow>
          map_sum id (\<lambda>rest. evs @ rest)
            (process_packages env pkgs formats base_output_dir dry_run))"

text \<open>A driver environment used as a concrete input: the summary of \<open>A-3\<close> cannot be fetched.\<close>

definition demo_url :: "string \<Rightarrow> string \<Rightarrow> json" where
  "demo_url pid kind = JStr (''https://api.govinfo.gov/packages/'' @ pid @ ''/'' @ kind)"

definition demo_summary :: "json \<Rightarrow> page_response" where
  "demo_summary pid =
     (case pid of
        JStr s \<Rightarrow>
          if s = ''A-3'' then RequestFailed
          else Page (JObj [(''download'', JObj [(''pdfLink'', demo_url s ''pdf'')])])
      | _ \<Rightarrow> RequestFailed)"

definition demo_env :: driver_env where
  "demo_env =
     \<lparr>summary_of = demo_summary,
      asset = (\<lambda>url dest n. Status 200 None Written),
      monotonic = (\<lambda>url dest n. 0),
      py_str = (\<lambda>v. ''?'')\<rparr>"

text \<open>
  The same environment with a summary of \<open>A-3\<close> that arrives and is the document
  \<open>doc\<close>.
\<close>

definition malformed_summary :: "json \<Rightarrow> json \<Rightarrow> page_response" where
  "malformed_summary doc pid = (if pid = JStr ''A-3'' then Page doc else demo_summary pid)"

definition data_dir :: path where
  "data_dir = \<lparr>root = ''/'', parts = [''govinfo_data'']\<rparr>"

definition demo_download :: "string \<Rightarrow> string \<Rightarrow> dl_event" where
  "demo_download pid code =
     Downloaded (demo_url pid ''pdf'')
       \<lparr>root = ''/'', parts = [''govinfo_data'', code, ''2019'', pid @ ''.pdf'']\<rparr> True"






section \<open>Properties of the downloader\<close>

lemmas py_int_eval =
  retry_after_seconds_def py_int_def int_isspace_def parse_digits_def INT_MAX_STR_DIGITS_def
  digits_value_def digit_val_def is_digit_def

lemma try_attempt_failure: "non_transient_failure resp \<Longrightarrow> try_attempt now resp = Caught"
  by (auto simp: non_transient_failure_def try_attempt_def split: dl_response.splits)

lemma dl_loop_all_fail:
  assumes fail: "\<And>n. try_attempt (clock n) (env n) = Caught"
  shows "attempt \<le> max_retries + 1 \<Longrightarrow>
    dl_loop clock env max_retries attempt sl =
      \<lparr>outcome = Inr False, requests = max_retries + 1,
       slept = sl @ map (\<lambda>k. 5 * k) [attempt + 1..max_retries]\<rparr>"
proof (induction "nat (max_retries + 1 - attempt)" arbitrary: attempt sl)
  case 0
  then have "attempt = max_retries + 1" by simp
  then show ?case by (subst dl_loop.simps) simp
next
  case (Suc k)
  then have le: "attempt \<le> max_retries" by simp
  show ?case
  proof (cases "attempt + 1 > max_retries")
    case True
    with le have "attempt = max_retries" by simp
    then show ?thesis by (subst dl_loop.simps) (simp add: fail)
  next
    case False
    have "dl_loop clock env max_retries attempt sl =
          dl_loop clock env max_retries (attempt + 1) (sl @ [5 * (attempt + 1)])"
      using le False by (subst dl_loop.simps) (simp add: fail)
    also have "\<dots> = \<lparr>outcome = Inr False, requests = max_retries + 1,
       slept = (sl @ [5 * (attempt + 1)]) @ map (\<lambda>k. 5 * k) [attempt + 1 + 1..max_retries]\<rparr>"
      using Suc.hyps(2) False by (intro Suc.hyps(1)) simp_all
    also have "(sl @ [5 * (attempt + 1)]) @ map (\<lambda>k. 5 * k) [attempt + 1 + 1..max_retries]
        = sl @ map (\<lambda>k. 5 * k) [attempt + 1..max_retries]"
      using False by (subst (2) upto_rec1) simp_all
    finally show ?thesis .
  qed
qed

text \<open>
  C4.  When every attempt fails with a non-transient error (HTTP 500, say), a download with
  \<open>max_retries \<ge> 0\<close> returns \<open>False\<close> after exactly \<open>max_retries + 1\<close> requests
  (the first attempt and \<open>max_retries\<close> retries), having slept \<open>5 * attempt\<close>
  seconds between two attempts.  With \<open>max_retries = 3\<close> that is 4 requests.
\<close>

theorem retry_exhaustion_count:
  assumes "0 \<le> max_retries" and "\<And>n. non_transient_failure (env n)"
  shows "download_with_retries clock env max_retries =
      \<lparr>outcome = Inr False, requests = max_retries + 1,
       slept = map (\<lambda>k. 5 * k) [1..max_retries]\<rparr>"
  using dl_loop_all_fail[of clock env 0 max_retries "[]"] assms
  by (simp add: download_with_retries_def try_attempt_failure)

theorem retry_exhaustion_count_witness:
  "download_with_retries (\<lambda>n. 0) (\<lambda>n. Status 500 None Written) 3 =
      \<lparr>outcome = Inr False, requests = 4, slept = [5, 10, 15]\<rparr>"
  using retry_exhaustion_count[of 3 "\<lambda>n. Status 500 None Written" "\<lambda>n. 0"]
  by (simp add: non_transient_failure_def upto_rec1)

lemma try_attempt_503:
  "retry_after_seconds hdr = Some d \<Longrightarrow> time_sleep now d = None \<Longrightarrow>
   try_attempt now (Status 503 hdr body) = Slept d"
  by (simp add: try_attempt_def)

lemma dl_loop_503_step:
  assumes "attempt \<le> max_retries" and "env (attempt + 1) = Status 503 hdr body"
    and "retry_after_seconds hdr = Some d" and "time_sleep (clock (attempt + 1)) d = None"
  shows "dl_loop clock env max_retries attempt sl =
    dl_loop clock env max_retries (attempt + 1) (sl @ [d])"
  using assms by (subst dl_loop.simps) (simp add: try_attempt_503)

lemma retry_after_default: "retry_after_seconds None = Some 30"
  by (simp add: py_int_eval)

lemma time_sleep_accepts:
  "time_sleep now d = None \<longleftrightarrow>
     0 \<le> d \<and> d * 10 ^ 9 \<le> 2 ^ 63 - 1 \<and> now + d * 10 ^ 9 \<le> 2 ^ 63 - 1"
  by (auto simp: time_sleep_def)

lemma dl_loop_503_run:
  assumes ok: "\<And>i. attempt < i \<Longrightarrow> i \<le> attempt + int k \<Longrightarrow>
      \<exists>hdr body. env i = Status 503 hdr body \<and> retry_after_seconds hdr = Some (d i) \<and>
        time_sleep (clock i) (d i) = None"
    and "attempt + int k \<le> max_retries + 1"
  shows "dl_loop clock env max_retries attempt sl =
     dl_loop clock env max_retries (attempt + int k) (sl @ map d [attempt + 1..attempt + int k])"
  using assms
proof (induction k arbitrary: attempt sl)
  case 0
  then show ?case by simp
next
  case (Suc k)
  from Suc.prems(1)[of "attempt + 1"] obtain hdr body where
    e: "env (attempt + 1) = Status 503 hdr body" "retry_after_seconds hdr = Some (d (attempt + 1))"
      "time_sleep (clock (attempt + 1)) (d (attempt + 1)) = None" by auto
  have le: "attempt \<le> max_retries" using Suc.prems(2) by simp
  have "dl_loop clock env max_retries attempt sl =
        dl_loop clock env max_retries (attempt + 1) (sl @ [d (attempt + 1)])"
    using le e by (rule dl_loop_503_step)
  also have "\<dots> = dl_loop clock env max_retries (attempt + 1 + int k)
       ((sl @ [d (attempt + 1)]) @ map d [attempt + 1 + 1..attempt + 1 + int k])"
    using Suc.prems by (intro Suc.IH) auto
  also have "(sl @ [d (attempt + 1)]) @ map d [attempt + 1 + 1..attempt + 1 + int k]
      = sl @ map d [attempt + 1..attempt + int (Suc k)]"
    by (subst (2) upto_rec1) (simp_all add: add.commute add.left_commute)
  finally show ?case by (simp add: add.commute add.left_commute)
qed

text \<open>
  C5.  The 503 branch reads \<open>Retry-After\<close> as a number of seconds, 30 when the header
  is absent, sleeps that long and goes round the loop again, the answer having used
  up one attempt.  Stated for any point of the loop and any number of such answers in
  a row: when the \<open>k\<close> attempts after \<open>attempt\<close> are answered 503, the \<open>i\<close>-th with
  a header that reads as a number \<open>d i\<close> of seconds that \<open>time.sleep\<close> accepts (not
  negative and, counted in nanoseconds from the reading \<open>clock i\<close> of the monotonic
  clock, not past \<open>2^63 - 1\<close>: up to some 9.2 thousand million seconds), the loop goes
  on from \<open>attempt + k\<close> having slept exactly those \<open>d i\<close> in order; and when that uses
  up the budget (\<open>attempt + k = max_retries + 1\<close>) the result is \<open>False\<close> after
  \<open>max_retries + 1\<close> requests.  A header beyond that range, like one that is no
  integer, raises out of the function.
\<close>

theorem transient_unavailable_semantics:
  assumes "\<And>i. attempt < i \<Longrightarrow> i \<le> attempt + int k \<Longrightarrow>
      \<exists>hdr body. env i = Status 503 hdr body \<and> retry_after_seconds hdr = Some (d i) \<and>
        time_sleep (clock i) (d i) = None"
    and "attempt + int k \<le> max_retries + 1"
  shows "retry_after_seconds None = Some 30
    \<and> dl_loop clock env max_retries attempt sl =
        dl_loop clock env max_retries (attempt + int k)
          (sl @ map d [attempt + 1..attempt + int k])
    \<and> (attempt + int k = max_retries + 1 \<longrightarrow>
         dl_loop clock env max_retries attempt sl =
           \<lparr>outcome = Inr False, requests = max_retries + 1,
            slept = sl @ map d [attempt + 1..attempt + int k]\<rparr>)"
proof -
  have run: "dl_loop clock env max_retries attempt sl =
        dl_loop clock env max_retries (attempt + int k)
          (sl @ map d [attempt + 1..attempt + int k])"
    using assms by (rule dl_loop_503_run)
  have "dl_loop clock env max_retries attempt sl =
           \<lparr>outcome = Inr False, requests = max_retries + 1,
            slept = sl @ map d [attempt + 1..attempt + int k]\<rparr>"
    if "attempt + int k = max_retries + 1"
    unfolding run using that by (subst dl_loop.simps) simp
  with run retry_after_default show ?thesis by blast
qed

theorem transient_unavailable_semantics_witness:
  "download_with_retries (\<lambda>n. 0)
     (\<lambda>n. if n \<le> 2 then Status 503 (Some ''2'') Written else Status 200 None Written) 3 =
   \<lparr>outcome = Inr True, requests = 3, slept = [2, 2]\<rparr>
   \<and> download_with_retries (\<lambda>n. 0) (\<lambda>n. Status 503 None Written) 1 =
   \<lparr>outcome = Inr False, requests = 2, slept = [30, 30]\<rparr>"
proof
  have "dl_loop (\<lambda>n. 0)
       (\<lambda>n. if n \<le> 2 then Status 503 (Some ''2'') Written else Status 200 None Written)
       3 0 [] =
     dl_loop (\<lambda>n. 0)
       (\<lambda>n. if n \<le> 2 then Status 503 (Some ''2'') Written else Status 200 None Written)
       3 (0 + int 2) ([] @ map (\<lambda>i. 2) [0 + 1..0 + int 2])"
    using transient_unavailable_semantics[where attempt = 0 and k = 2
        and env = "\<lambda>n. if n \<le> 2 then Status 503 (Some ''2'') Written else Status 200 None Written"
        and d = "\<lambda>i. 2" and max_retries = 3 and sl = "[]" and clock = "\<lambda>n. 0"]
    by (simp add: py_int_eval time_sleep_def)
  then show "download_with_retries (\<lambda>n. 0)
     (\<lambda>n. if n \<le> 2 then Status 503 (Some ''2'') Written else Status 200 None Written) 3 =
   \<lparr>outcome = Inr True, requests = 3, slept = [2, 2]\<rparr>"
    by (simp add: download_with_retries_def dl_loop.simps try_attempt_def upto_rec1)
  have "dl_loop (\<lambda>n. 0) (\<lambda>n. Status 503 None Written) 1 0 [] =
     \<lparr>outcome = Inr False, requests = 1 + 1, slept = [] @ map (\<lambda>i. 30) [0 + 1..0 + int 2]\<rparr>"
    using transient_unavailable_semantics[where attempt = 0 and k = 2
        and env = "\<lambda>n. Status 503 None Written" and d = "\<lambda>i. 30" and max_retries = 1
        and sl = "[]" and clock = "\<lambda>n. 0"]
    by (simp add: py_int_eval time_sleep_def dl_loop.simps)
  then show "download_with_retries (\<lambda>n. 0) (\<lambda>n. Status 503 None Written) 1 =
   \<lparr>outcome = Inr False, requests = 2, slept = [30, 30]\<rparr>"
    by (simp add: download_with_retries_def upto_rec1)
qed

text \<open>
  C3.  The \<open>except\<close> clause catches \<open>requests.RequestException\<close> only.  A
  \<open>Retry-After\<close> header that is an HTTP date makes \<open>int\<close> raise ValueError, and a
  failing \<open>mkdir\<close>, \<open>open\<close> or \<open>write\<close> raises OSError; both leave
  \<open>download_with_retries\<close>.
\<close>

theorem download_raises_at_failing_inputs:
  "outcome (download_with_retries clock
     (\<lambda>n. Status 503 (Some ''Wed, 21 Oct 2015 07:28:00 GMT'') Written) 3) = Inl ValueError
   \<and> outcome (download_with_retries clock (\<lambda>n. Status 200 None DiskError) 3) = Inl OSError"
  by (simp add: download_with_retries_def dl_loop.simps try_attempt_def py_int_eval)

section \<open>Properties of discovery\<close>

lemma good_records_Nil [simp]: "good_records [] = []"
  by (simp add: good_records_def map_filter_simps)

lemma good_records_Cons:
  "good_records (item # items) =
     (case item_record item of Inr (Some r) \<Rightarrow> r # good_records items | _ \<Rightarrow> good_records items)"
  by (simp add: good_records_def map_filter_simps split: sum.splits option.splits)

lemma process_items_ConsE:
  assumes "process_items m (item # items) pkgs = Inr (c, pkgs')"
  obtains
    (skip) "item_record item = Inr None" "process_items m items pkgs = Inr (c, pkgs')"
  | (capped) r where "item_record item = Inr (Some r)" "cap_reached m (pkgs @ [r])"
      "c" "pkgs' = pkgs @ [r]"
  | (more) r where "item_record item = Inr (Some r)" "\<not> cap_reached m (pkgs @ [r])"
      "process_items m items (pkgs @ [r]) = Inr (c, pkgs')"
  using assms by (auto split: sum.splits option.splits if_splits)

lemma process_items_not_capped:
  "process_items m items pkgs = Inr (False, pkgs') \<Longrightarrow> pkgs' = pkgs @ good_records items"
proof (induction items arbitrary: pkgs)
  case Nil
  then show ?case by simp
next
  case (Cons item items)
  from Cons.prems show ?case
  proof (cases rule: process_items_ConsE)
    case skip
    with Cons.IH show ?thesis by (simp add: good_records_Cons)
  next
    case (capped r)
    then show ?thesis by simp
  next
    case (more r)
    with Cons.IH[of "pkgs @ [r]"] show ?thesis by (simp add: good_records_Cons)
  qed
qed

lemma process_items_uncapped:
  "process_items None items pkgs = Inr (c, pkgs') \<Longrightarrow> \<not> c"
proof (induction items arbitrary: pkgs)
  case Nil
  then show ?case by simp
next
  case (Cons item items)
  from Cons.prems show ?case
  proof (cases rule: process_items_ConsE)
    case skip
    with Cons.IH show ?thesis by blast
  next
    case (capped r)
    then show ?thesis by (simp add: cap_reached_def)
  next
    case (more r)
    with Cons.IH[of "pkgs @ [r]"] show ?thesis by blast
  qed
qed

lemma process_items_prefix:
  "process_items m items pkgs = Inr (c, pkgs') \<Longrightarrow>
   \<exists>n. pkgs' = pkgs @ take n (good_records items)"
proof (induction items arbitrary: pkgs)
  case Nil
  then show ?case by simp
next
  case (Cons item items)
  from Cons.prems show ?case
  proof (cases rule: process_items_ConsE)
    case skip
    with Cons.IH show ?thesis by (simp add: good_records_Cons)
  next
    case (capped r)
    then have "pkgs' = pkgs @ take 1 (good_records (item # items))"
      by (simp add: good_records_Cons)
    then show ?thesis ..
  next
    case (more r)
    from Cons.IH[OF more(3)] obtain n where "pkgs' = (pkgs @ [r]) @ take n (good_records items)" ..
    then have "pkgs' = pkgs @ take (Suc n) (good_records (item # items))"
      using more by (simp add: good_records_Cons)
    then show ?thesis ..
  qed
qed

lemma process_items_cap:
  "int (length pkgs) < k \<Longrightarrow> process_items (Some k) items pkgs = Inr (c, pkgs') \<Longrightarrow>
   (if c then int (length pkgs') = k else int (length pkgs') < k)"
proof (induction items arbitrary: pkgs)
  case Nil
  then show ?case by auto
next
  case (Cons item items)
  from Cons.prems(2) show ?case
  proof (cases rule: process_items_ConsE)
    case skip
    with Cons.IH[of pkgs] Cons.prems show ?thesis by simp
  next
    case (capped r)
    with Cons.prems show ?thesis by (simp add: cap_reached_def)
  next
    case (more r)
    with Cons.IH[of "pkgs @ [r]"] Cons.prems show ?thesis by (simp add: cap_reached_def)
  qed
qed


lemma fetch_loop_Exit:
  "fetch_page qs srv m st = Exit r \<Longrightarrow> fetch_loop qs srv m st = Some r"
  by (subst fetch_loop.simps) simp

lemma fetch_loop_Again:
  "fetch_page qs srv m st = Again st' \<Longrightarrow> fetch_loop qs srv m st = fetch_loop qs srv m st'"
  by (subst fetch_loop.simps) simp

lemma fetch_loop_invariant:
  assumes run: "fetch_loop qs srv m st = Some r"
    and init: "I st"
    and step: "\<And>s s'. I s \<Longrightarrow> fetch_page qs srv m s = Again s' \<Longrightarrow> I s'"
    and exit: "\<And>s r. I s \<Longrightarrow> fetch_page qs srv m s = Exit r \<Longrightarrow> Q r"
  shows "Q r"
proof -
  have "qs = qs \<longrightarrow> srv = srv \<longrightarrow> m = m \<longrightarrow> I st \<longrightarrow> Q r"
  proof (rule fetch_loop.raw_induct[where
        P = "\<lambda>a b c s y. a = qs \<longrightarrow> b = srv \<longrightarrow> c = m \<longrightarrow> I s \<longrightarrow> Q y", OF _ run], goal_cases)
    case (1 loop a b c s y)
    show ?case
    proof (intro impI)
      assume eqs: "a = qs" "b = srv" "c = m" and inv: "I s"
      show "Q y"
      proof (cases "fetch_page qs srv m s")
        case (Exit r')
        with 1(2) eqs have "r' = y" by simp
        with exit[OF inv Exit] show ?thesis by simp
      next
        case (Again s')
        with 1(2) eqs have "loop qs srv m s' = Some y" by simp
        from 1(1)[OF this] step[OF inv Again] show ?thesis by simp
      qed
    qed
  qed
  with init show ?thesis by simp
qed

lemma fetch_loop_terminates:
  fixes f :: "fetch_state \<Rightarrow> nat"
  assumes init: "I st"
    and step: "\<And>s s'. I s \<Longrightarrow> fetch_page qs srv m s = Again s' \<Longrightarrow> I s' \<and> f s' < f s"
  shows "\<exists>r. fetch_loop qs srv m st = Some r"
  using init
proof (induction "f st" arbitrary: st rule: less_induct)
  case less
  show ?case
  proof (cases "fetch_page qs srv m st")
    case (Exit r)
    then show ?thesis by (auto dest: fetch_loop_Exit)
  next
    case (Again st')
    from step[OF less.prems Again] have "I st'" "f st' < f st" by auto
    from less.hyps[OF this(2) this(1)] show ?thesis
      using fetch_loop_Again[OF Again] by simp
  qed
qed

lemma fetch_page_AgainD:
  assumes "fetch_page qs srv m st = Again st'"
  shows "\<exists>data item items s.
    srv (length (requested st)) (offset_mark st) = Page data \<and>
    find_items data [''packages'', ''results'', ''records''] = Inr (item # items) \<and>
    process_items m (item # items) (packages st) = Inr (False, packages st') \<and>
    page_next qs (srv (length (requested st)) (offset_mark st)) = Some s \<and>
    s \<notin> seen_offsets st \<and>
    st' = \<lparr>offset_mark = s, seen_offsets = insert s (seen_offsets st),
           packages = packages st', requested = requested st @ [offset_mark st]\<rparr>"
  using assms unfolding fetch_page_def Let_def page_next_def
  by (auto simp del: find_items.simps process_items.simps
      split: page_response.splits sum.splits if_splits prod.splits bool.splits json.splits
        list.splits)


lemma process_items_capped:
  "process_items m items pkgs = Inr (True, pkgs') \<Longrightarrow> cap_reached m pkgs'"
proof (induction items arbitrary: pkgs)
  case Nil
  then show ?case by simp
next
  case (Cons item items)
  from Cons.prems show ?case
  proof (cases rule: process_items_ConsE)
    case skip
    with Cons.IH show ?thesis by blast
  next
    case (capped r)
    then show ?thesis by simp
  next
    case (more r)
    with Cons.IH[of "pkgs @ [r]"] show ?thesis by blast
  qed
qed

lemma fetch_page_ExitD:
  assumes "fetch_page qs srv m st = Exit (Inr (pkgs, reqs))"
  shows "reqs = requested st @ [offset_mark st]"
    and "\<exists>n. pkgs = packages st @ take n (page_records (srv (length (requested st)) (offset_mark st)))"
    and "cap_reached m pkgs \<or>
         (pkgs = packages st @ page_records (srv (length (requested st)) (offset_mark st)) \<and>
          (case page_next qs (srv (length (requested st)) (offset_mark st)) of
             None \<Rightarrow> True | Some c \<Rightarrow> c \<in> seen_offsets st))"
proof -
  show "reqs = requested st @ [offset_mark st]"
    using assms unfolding fetch_page_def Let_def
    by (auto simp del: find_items.simps process_items.simps
        split: page_response.splits sum.splits if_splits prod.splits bool.splits json.splits)
  have take0: "packages st = packages st @ take 0 xs" for xs :: "package_record list" by simp
  show "\<exists>n. pkgs = packages st @ take n (page_records (srv (length (requested st)) (offset_mark st)))"
    using assms unfolding fetch_page_def Let_def page_records_def
    by (auto simp del: find_items.simps process_items.simps
        intro: take0 dest: process_items_prefix
        split: page_response.splits sum.splits if_splits prod.splits bool.splits json.splits)
  show "cap_reached m pkgs \<or>
         (pkgs = packages st @ page_records (srv (length (requested st)) (offset_mark st)) \<and>
          (case page_next qs (srv (length (requested st)) (offset_mark st)) of
             None \<Rightarrow> True | Some c \<Rightarrow> c \<in> seen_offsets st))"
    using assms unfolding fetch_page_def Let_def page_records_def page_next_def
    by (auto simp del: find_items.simps process_items.simps
        dest: process_items_capped process_items_not_capped
        split: page_response.splits sum.splits if_splits prod.splits bool.splits json.splits
          list.splits)
qed


lemma records_upto_Suc:
  "records_upto srv reqs (Suc k) = records_upto srv reqs k @ page_records (srv k (reqs ! k))"
  by (simp add: records_upto_def)

lemma records_upto_append:
  "k \<le> length reqs \<Longrightarrow> records_upto srv (reqs @ extra) k = records_upto srv reqs k"
  unfolding records_upto_def
  by (rule arg_cong[where f = concat], rule map_cong) (auto simp: nth_append)

lemma records_upto_0 [simp]: "records_upto srv reqs 0 = []"
  by (simp add: records_upto_def)

lemma cursor_chain_snoc:
  assumes "cursor_chain qs srv (reqs @ [c])"
    and "page_next qs (srv (length reqs) c) = Some s"
  shows "cursor_chain qs srv ((reqs @ [c]) @ [s])"
  unfolding cursor_chain_def
proof (intro allI impI)
  fix k assume "Suc k < length ((reqs @ [c]) @ [s])"
  then consider "Suc k < length (reqs @ [c])" | "k = length reqs" by fastforce
  then show "page_next qs (srv k (((reqs @ [c]) @ [s]) ! k)) = Some (((reqs @ [c]) @ [s]) ! Suc k)"
  proof cases
    case 1
    then have "((reqs @ [c]) @ [s]) ! k = (reqs @ [c]) ! k"
      "((reqs @ [c]) @ [s]) ! Suc k = (reqs @ [c]) ! Suc k"
      by (simp_all add: nth_append)
    with assms(1) 1 show ?thesis by (simp add: cursor_chain_def)
  next
    case 2
    then show ?thesis using assms(2) by (simp add: nth_append)
  qed
qed

lemma fetch_inv_init:
  "fetch_inv qs srv \<lparr>offset_mark = ''*'', seen_offsets = {}, packages = [], requested = []\<rparr>"
  by (simp add: fetch_inv_def cursor_chain_def)

lemma fetch_inv_step:
  assumes inv: "fetch_inv qs srv st" and again: "fetch_page qs srv m st = Again st'"
  shows "fetch_inv qs srv st'"
proof -
  from fetch_page_AgainD[OF again] obtain data item items s where
    resp: "srv (length (requested st)) (offset_mark st) = Page data"
    and items: "find_items data [''packages'', ''results'', ''records''] = Inr (item # items)"
    and proc: "process_items m (item # items) (packages st) = Inr (False, packages st')"
    and nxt: "page_next qs (srv (length (requested st)) (offset_mark st)) = Some s"
    and fresh: "s \<notin> seen_offsets st"
    and st': "st' = \<lparr>offset_mark = s, seen_offsets = insert s (seen_offsets st),
           packages = packages st', requested = requested st @ [offset_mark st]\<rparr>"
    by blast
  let ?rs = "requested st @ [offset_mark st]"
  from inv obtain rest where rest: "?rs = ''*'' # rest" "seen_offsets st = set rest" "distinct rest"
    and chain: "cursor_chain qs srv ?rs"
    and pk: "packages st = records_upto srv ?rs (length (requested st))"
    unfolding fetch_inv_def by blast
  have rq: "requested st' = ?rs" and om: "offset_mark st' = s"
    and sn: "seen_offsets st' = insert s (seen_offsets st)"
    by (subst st', simp)+
  have 1: "requested st' @ [offset_mark st'] = ''*'' # (rest @ [s])"
    using rest(1) rq om by simp
  have 2: "seen_offsets st' = set (rest @ [s])" using sn rest(2) by simp
  have 3: "distinct (rest @ [s])" using rest(2,3) fresh by simp
  have 4: "cursor_chain qs srv (requested st' @ [offset_mark st'])"
    unfolding rq om using chain nxt by (rule cursor_chain_snoc)
  have "packages st' = packages st @ good_records (item # items)"
    using proc by (rule process_items_not_capped)
  also have "good_records (item # items) = page_records (srv (length (requested st)) (offset_mark st))"
    using resp items by (simp add: page_records_def)
  finally have "packages st' = records_upto srv ?rs (Suc (length (requested st)))"
    using pk by (simp add: records_upto_Suc)
  moreover have "records_upto srv (?rs @ [s]) (length ?rs) = records_upto srv ?rs (length ?rs)"
    by (rule records_upto_append) simp
  ultimately have 5: "packages st' =
      records_upto srv (requested st' @ [offset_mark st']) (length (requested st'))"
    unfolding rq om by simp
  from 1 2 3 4 5 show ?thesis unfolding fetch_inv_def by blast
qed


lemma fetch_inv_exit:
  assumes inv: "fetch_inv qs srv st" and exit: "fetch_page qs srv m st = Exit r"
  shows "fetch_post qs srv m r"
proof (cases r)
  case (Inl e)
  then show ?thesis by (simp add: fetch_post_def)
next
  case (Inr pr)
  obtain pkgs reqs where pr: "pr = (pkgs, reqs)" by (cases pr)
  let ?rs = "requested st @ [offset_mark st]"
  let ?resp = "srv (length (requested st)) (offset_mark st)"
  from inv obtain rest where rest: "?rs = ''*'' # rest" "seen_offsets st = set rest" "distinct rest"
    and chain: "cursor_chain qs srv ?rs"
    and pk: "packages st = records_upto srv ?rs (length (requested st))"
    unfolding fetch_inv_def by blast
  from exit Inr pr have ex: "fetch_page qs srv m st = Exit (Inr (pkgs, reqs))" by simp
  have reqs: "reqs = ?rs" using fetch_page_ExitD(1)[OF ex] .
  have len: "length reqs - 1 = length (requested st)" and lst: "last reqs = offset_mark st"
    using reqs by simp_all
  have tl: "set (tl reqs) = seen_offsets st" using reqs rest by simp
  have all: "records_upto srv reqs (length reqs) = packages st @ page_records ?resp"
    using pk reqs by (simp add: records_upto_Suc)
  have 1: "\<exists>rest. reqs = ''*'' # rest \<and> distinct rest" using reqs rest by blast
  have 2: "cursor_chain qs srv reqs" using chain reqs by simp
  have 3: "\<exists>n. pkgs = records_upto srv reqs (length reqs - 1) @
                  take n (page_records (srv (length reqs - 1) (last reqs)))"
    unfolding len lst using fetch_page_ExitD(2)[OF ex] pk reqs by simp
  have 4: "cap_reached m pkgs \<or>
           (pkgs = records_upto srv reqs (length reqs) \<and>
            (case page_next qs (srv (length reqs - 1) (last reqs)) of
               None \<Rightarrow> True
             | Some c \<Rightarrow> c \<in> set (tl reqs)))"
    unfolding len lst tl all using fetch_page_ExitD(3)[OF ex] by simp
  from 1 2 3 4 show ?thesis unfolding fetch_post_def Inr pr by simp
qed

lemma fetch_loop_sound:
  assumes "fetch_loop qs srv m
      \<lparr>offset_mark = ''*'', seen_offsets = {}, packages = [], requested = []\<rparr> = Some r"
  shows "fetch_post qs srv m r"
  using assms fetch_inv_init
proof (rule fetch_loop_invariant)
  show "fetch_inv qs srv s'" if "fetch_inv qs srv s" "fetch_page qs srv m s = Again s'" for s s'
    using that by (rule fetch_inv_step)
  show "fetch_post qs srv m r" if "fetch_inv qs srv s" "fetch_page qs srv m s = Exit r" for s r
    using that by (rule fetch_inv_exit)
qed


lemma fetch_loop_terminates_finite:
  assumes fin: "finite C"
    and dom: "\<And>n c s. page_next qs (srv n c) = Some s \<Longrightarrow> s \<in> C"
    and sub: "seen_offsets st \<subseteq> C"
  shows "\<exists>r. fetch_loop qs srv m st = Some r"
proof (rule fetch_loop_terminates[where I = "\<lambda>s. seen_offsets s \<subseteq> C"
      and f = "\<lambda>s. card (C - seen_offsets s)"])
  show "seen_offsets st \<subseteq> C" by (rule sub)
next
  fix s s'
  assume inv: "seen_offsets s \<subseteq> C" and again: "fetch_page qs srv m s = Again s'"
  from fetch_page_AgainD[OF again] obtain c where
    nxt: "page_next qs (srv (length (requested s)) (offset_mark s)) = Some c"
    and fresh: "c \<notin> seen_offsets s"
    and seen': "seen_offsets s' = insert c (seen_offsets s)"
    by (metis fetch_state.select_convs(2))
  from dom[OF nxt] have "c \<in> C" .
  with fresh have "C - seen_offsets s' \<subset> C - seen_offsets s" unfolding seen' by auto
  with fin have "card (C - seen_offsets s') < card (C - seen_offsets s)"
    by (intro psubset_card_mono) auto
  with inv \<open>c \<in> C\<close> seen' show "seen_offsets s' \<subseteq> C \<and> card (C - seen_offsets s') < card (C - seen_offsets s)"
    by simp
qed

lemmas fetch_eval =
  fetch_published_packages_def MAX_PAGE_SIZE_def strip_def py_isspace_def
  fetch_loop.simps fetch_page_def Let_def demo_page_def demo_item_def demo_record_def
  no_query_def next_offset_from_nextpage_def lookup_def py_or_def cap_reached_def

lemma fetch_published_terminates_finite:
  assumes "finite {s. \<exists>n c. page_next qs (srv n c) = Some s}"
  shows "\<exists>r. fetch_published_packages qs srv collections page_size m = Some r"
proof -
  have "\<exists>r. fetch_loop qs srv m
      \<lparr>offset_mark = ''*'', seen_offsets = {}, packages = [], requested = []\<rparr> = Some r"
    by (rule fetch_loop_terminates_finite[OF assms]) auto
  then show ?thesis by (simp add: fetch_published_packages_def)
qed

lemma fetch_published_sound:
  assumes "fetch_published_packages qs srv collections page_size m = Some r"
  shows "fetch_post qs srv m r"
  using assms fetch_loop_sound[of qs srv m r]
  by (auto simp: fetch_published_packages_def fetch_post_def split: if_splits)

lemma cycle_server_run:
  "fetch_published_packages no_query cycle_server [''BILLS''] 100 None =
     Some (Inr ([demo_record ''A-1'', demo_record ''A-2'', demo_record ''A-3''],
                [''*'', ''c1'', ''c2'']))"
  by (simp add: fetch_eval cycle_server_def)

lemma sql_loop_never:
  assumes "\<And>st. \<exists>st'. sql_page k srv st = Again st'"
  shows "sql_loop k srv st = None"
proof (rule ccontr)
  assume "sql_loop k srv st \<noteq> None"
  then obtain y where run: "sql_loop k srv st = Some y" by auto
  have "k = k \<longrightarrow> srv = srv \<longrightarrow> False"
  proof (rule sql_loop.raw_induct[where P = "\<lambda>a b s y. a = k \<longrightarrow> b = srv \<longrightarrow> False", OF _ run],
      goal_cases)
    case (1 loop a b s y)
    show ?case
    proof (intro impI)
      assume eqs: "a = k" "b = srv"
      from assms[of s] obtain s' where "sql_page k srv s = Again s'" ..
      with 1(2) eqs have "loop k srv s' = Some y" by simp
      from 1(1)[OF this] show False by simp
    qed
  qed
  then show False by simp
qed

lemmas sql_eval =
  fetch_packages_for_collection_def sql_page_def get_json_def Let_def
  demo_page_def demo_item_def lookup_def py_or_def iterate_items_def sql_next_offset_def

lemma sql_cycle_never: "fetch_packages_for_collection True sql_cycle_server = None"
  unfolding fetch_packages_for_collection_def
  by (rule sql_loop_never) (simp add: sql_eval sql_cycle_server_def)

text \<open>
  C1.  The guard against a repeated cursor does not know the cursor of the first
  request: \<open>seen_offsets\<close> starts empty and only receives the cursors that follow.  On
  a server whose first page leads to \<open>c1\<close> and whose page \<open>c1\<close> leads back to the
  initial \<open>*\<close>, the repeat is not detected: \<open>*\<close> is requested a second time, the
  record of the first page is returned twice, and discovery stops only when \<open>c1\<close>
  comes back.  The records of the two pages fetched before the repeat are \<open>A-1\<close> and
  \<open>A-2\<close>; three records are returned.
\<close>

theorem cursor_guard_misses_initial_cursor:
  "fetch_published_packages no_query return_server [''BILLS''] 100 None =
     Some (Inr ([demo_record ''A-1'', demo_record ''A-2'', demo_record ''A-1''],
                [''*'', ''c1'', ''*'']))
   \<and> page_next no_query (return_server 1 ''c1'') = Some ''*''
   \<and> records_upto return_server [''*'', ''c1''] 2 = [demo_record ''A-1'', demo_record ''A-2'']"
  by (simp add: fetch_eval return_server_def page_next_def records_upto_def page_records_def
      good_records_Cons numeral_2_eq_2)

lemma prefix_take:
  "xs = A @ take n B \<Longrightarrow> take (length xs) (A @ B) = xs"
  by (simp add: min_def take_all)

lemma fetch_page_cap_exit:
  assumes "fetch_page qs srv (Some k) st = Exit (Inr (pkgs, reqs))"
    and "int (length (packages st)) < k"
  shows "int (length pkgs) \<le> k"
  using assms unfolding fetch_page_def Let_def
  by (auto simp del: find_items.simps process_items.simps
        dest: process_items_cap
        split: page_response.splits sum.splits if_splits prod.splits bool.splits json.splits)

lemma endless_server_capped:
  "fetch_published_packages no_query endless_server [''BILLS''] 100 (Some 3) =
     Some (Inr ([demo_record ''A-1'', demo_record ''A-2'', demo_record ''A-1''], [''*'', ''*x'']))"
  by (simp add: fetch_eval endless_server_def)

lemma capped_result:
  assumes pos: "0 < k"
    and run: "fetch_published_packages qs srv collections page_size (Some k) = Some (Inr (pkgs, reqs))"
  shows "int (length pkgs) \<le> k
    \<and> pkgs = take (nat k) (records_upto srv reqs (length reqs))
    \<and> int (length (records_upto srv reqs (length reqs - 1))) < k"
proof -
  let ?I = "\<lambda>s. fetch_inv qs srv s \<and> int (length (packages s)) < k"
  let ?Q = "\<lambda>r. fetch_post qs srv (Some k) r \<and>
     (\<forall>pkgs reqs. r = Inr (pkgs, reqs) \<longrightarrow>
        int (length pkgs) \<le> k \<and> int (length (records_upto srv reqs (length reqs - 1))) < k)"
  from run have loop: "fetch_loop qs srv (Some k)
      \<lparr>offset_mark = ''*'', seen_offsets = {}, packages = [], requested = []\<rparr> =
      Some (Inr (pkgs, reqs))"
    by (simp add: fetch_published_packages_def split: if_splits)
  have "?Q (Inr (pkgs, reqs))"
  proof (rule fetch_loop_invariant[where I = ?I and Q = ?Q, OF loop])
    show "?I \<lparr>offset_mark = ''*'', seen_offsets = {}, packages = [], requested = []\<rparr>"
      using pos fetch_inv_init by simp
  next
    fix s s' assume inv: "?I s" and again: "fetch_page qs srv (Some k) s = Again s'"
    from fetch_page_AgainD[OF again] obtain item items where
      "process_items (Some k) (item # items) (packages s) = Inr (False, packages s')" by blast
    from process_items_cap[OF _ this] inv have "int (length (packages s')) < k" by simp
    with fetch_inv_step[OF _ again] inv show "?I s'" by blast
  next
    fix s r assume inv: "?I s" and exit: "fetch_page qs srv (Some k) s = Exit r"
    have "int (length pkgs') \<le> k \<and> int (length (records_upto srv reqs' (length reqs' - 1))) < k"
      if r: "r = Inr (pkgs', reqs')" for pkgs' reqs'
    proof -
      from exit r have ex: "fetch_page qs srv (Some k) s = Exit (Inr (pkgs', reqs'))" by simp
      have reqs': "reqs' = requested s @ [offset_mark s]" using fetch_page_ExitD(1)[OF ex] .
      from inv have "packages s = records_upto srv reqs' (length reqs' - 1)"
        unfolding fetch_inv_def reqs' by simp
      with inv fetch_page_cap_exit[OF ex] show ?thesis by simp
    qed
    with fetch_inv_exit[OF _ exit] inv show "?Q r" by blast
  qed
  then have post: "fetch_post qs srv (Some k) (Inr (pkgs, reqs))"
    and len: "int (length pkgs) \<le> k"
    and before: "int (length (records_upto srv reqs (length reqs - 1))) < k"
    by simp_all
  from post obtain n rest where
    reqs: "reqs = ''*'' # rest"
    and pre: "pkgs = records_upto srv reqs (length reqs - 1) @
                  take n (page_records (srv (length reqs - 1) (last reqs)))"
    and stop: "cap_reached (Some k) pkgs \<or> pkgs = records_upto srv reqs (length reqs)"
    unfolding fetch_post_def by auto
  have all: "records_upto srv reqs (length reqs) =
      records_upto srv reqs (length reqs - 1) @ page_records (srv (length reqs - 1) (last reqs))"
    using reqs records_upto_Suc[of srv reqs "length reqs - 1"] by (simp add: last_conv_nth)
  have "pkgs = take (nat k) (records_upto srv reqs (length reqs))"
  proof (cases "cap_reached (Some k) pkgs")
    case True
    with len have "length pkgs = nat k" by (simp add: cap_reached_def)
    with prefix_take[OF pre] all show ?thesis by simp
  next
    case False
    with stop have "pkgs = records_upto srv reqs (length reqs)" by simp
    with len show ?thesis by simp
  qed
  with len before show ?thesis by simp
qed

lemma capped_discovery_terminates:
  assumes pos: "0 < k"
    and rich: "\<And>n c s. page_next qs (srv n c) = Some s \<Longrightarrow> page_records (srv n c) \<noteq> []"
  shows "\<exists>r. fetch_published_packages qs srv collections page_size (Some k) = Some r"
proof -
  let ?st0 = "\<lparr>offset_mark = ''*'', seen_offsets = {}, packages = [], requested = []\<rparr>"
  let ?I = "\<lambda>s. int (length (packages s)) < k"
  have "\<exists>r. fetch_loop qs srv (Some k) ?st0 = Some r"
  proof (rule fetch_loop_terminates[where I = ?I and f = "\<lambda>s. nat k - length (packages s)"])
    show "?I ?st0" using pos by simp
  next
    fix s s' assume inv: "?I s" and again: "fetch_page qs srv (Some k) s = Again s'"
    from fetch_page_AgainD[OF again] obtain data item items c where
      page: "srv (length (requested s)) (offset_mark s) = Page data"
      and items: "find_items data [''packages'', ''results'', ''records''] = Inr (item # items)"
      and proc: "process_items (Some k) (item # items) (packages s) = Inr (False, packages s')"
      and nxt: "page_next qs (srv (length (requested s)) (offset_mark s)) = Some c"
      by blast
    from process_items_cap[OF inv proc] have lt: "int (length (packages s')) < k" by simp
    from rich[OF nxt] page items have "good_records (item # items) \<noteq> []"
      by (simp add: page_records_def)
    with process_items_not_capped[OF proc] have "length (packages s) < length (packages s')"
      by simp
    with lt show "?I s' \<and> nat k - length (packages s') < nat k - length (packages s)"
      by linarith
  qed
  then show ?thesis by (auto simp: fetch_published_packages_def)
qed

lemma process_items_objects:
  "list_all is_object items \<Longrightarrow> \<exists>c pkgs'. process_items m items pkgs = Inr (c, pkgs')"
proof (induction items arbitrary: pkgs)
  case Nil
  show ?case by auto
next
  case (Cons item items)
  then obtain kvs where item: "item = JObj kvs" by (cases item) auto
  from Cons.prems have rest: "list_all is_object items" by simp
  show ?case
  proof (cases "item_record item")
    case (Inl e)
    with item show ?thesis by (simp add: Let_def split: if_splits)
  next
    case (Inr ro)
    show ?thesis
    proof (cases ro)
      case None
      with Inr Cons.IH[OF rest, of pkgs] show ?thesis by simp
    next
      case (Some r)
      with Inr Cons.IH[OF rest, of "pkgs @ [r]"] show ?thesis by auto
    qed
  qed
qed

lemma fetch_page_wellformed:
  assumes "wellformed_page qs (srv (length (requested st)) (offset_mark st))"
  shows "fetch_page qs srv m st \<noteq> Exit (Inl e)"
proof (cases "srv (length (requested st)) (offset_mark st)")
  case RequestFailed
  then show ?thesis by (simp add: fetch_page_def)
next
  case DecodeFailed
  then show ?thesis by (simp add: fetch_page_def)
next
  case (Page data)
  with assms obtain items v where
    items: "find_items data [''packages'', ''results'', ''records''] = Inr items"
    and objs: "list_all is_object items"
    and np: "dict_get data ''nextPage'' = Inr v"
    and nxt: "next_offset_from_nextpage qs v = Inr JNull \<or>
              (\<exists>s. next_offset_from_nextpage qs v = Inr (JStr s))"
    unfolding wellformed_page_def
    by (auto simp del: find_items.simps split: sum.splits json.splits)
  from process_items_objects[OF objs] obtain c pkgs' where
    proc: "process_items m items (packages st) = Inr (c, pkgs')" by blast
  show ?thesis
  proof (cases c)
    case True
    with Page items proc show ?thesis
      unfolding fetch_page_def Let_def by (simp del: find_items.simps process_items.simps)
  next
    case False
    from nxt show ?thesis
    proof
      assume "next_offset_from_nextpage qs v = Inr JNull"
      with False Page items proc np show ?thesis
        unfolding fetch_page_def Let_def by (simp del: find_items.simps process_items.simps)
    next
      assume "\<exists>s. next_offset_from_nextpage qs v = Inr (JStr s)"
      then obtain s where "next_offset_from_nextpage qs v = Inr (JStr s)" ..
      with False Page items proc np show ?thesis
        unfolding fetch_page_def Let_def by (simp del: find_items.simps process_items.simps)
    qed
  qed
qed


lemma wellformed_result:
  assumes wf: "\<And>n c. wellformed_page qs (srv n c)"
    and valid: "0 < page_size" "page_size \<le> MAX_PAGE_SIZE"
      "[c \<leftarrow> map strip collections. c \<noteq> []] \<noteq> []"
    and run: "fetch_published_packages qs srv collections page_size m = Some r"
  shows "\<exists>pkgs reqs. r = Inr (pkgs, reqs)"
proof -
  from run valid have loop: "fetch_loop qs srv m
      \<lparr>offset_mark = ''*'', seen_offsets = {}, packages = [], requested = []\<rparr> = Some r"
    by (simp add: fetch_published_packages_def)
  have "\<forall>e. r \<noteq> Inl e"
  proof (rule fetch_loop_invariant[where I = "\<lambda>s. True" and Q = "\<lambda>r. \<forall>e. r \<noteq> Inl e", OF loop])
    fix s r' assume "fetch_page qs srv m s = Exit r'"
    with fetch_page_wellformed[where st = s and m = m and qs = qs and srv = srv, OF wf]
    show "\<forall>e. r' \<noteq> Inl e" by auto
  qed simp_all
  then show ?thesis by (cases r) auto
qed

text \<open>
  C2.  With a positive cap \<open>k\<close>, a discovery that returns has at most \<open>k\<close> records:
  the first \<open>k\<close> records of the pages it requested.  The pages before the last one
  hold fewer than \<open>k\<close> records together, so every request was made before the cap was
  reached and none after it.  And reaching the cap ends discovery with that list: when
  the arguments are valid, every response is well formed and every page that leads on
  carries a record, discovery returns a list, however many pages the server has.
\<close>

theorem max_records_cap:
  assumes pos: "0 < k"
  shows "(\<forall>pkgs reqs.
            fetch_published_packages qs srv collections page_size (Some k) = Some (Inr (pkgs, reqs)) \<longrightarrow>
            int (length pkgs) \<le> k
            \<and> pkgs = take (nat k) (records_upto srv reqs (length reqs))
            \<and> int (length (records_upto srv reqs (length reqs - 1))) < k)
    \<and> (0 < page_size \<and> page_size \<le> MAX_PAGE_SIZE
        \<and> [c \<leftarrow> map strip collections. c \<noteq> []] \<noteq> []
        \<and> (\<forall>n c. wellformed_page qs (srv n c))
        \<and> (\<forall>n c s. page_next qs (srv n c) = Some s \<longrightarrow> page_records (srv n c) \<noteq> []) \<longrightarrow>
        (\<exists>pkgs reqs.
            fetch_published_packages qs srv collections page_size (Some k) = Some (Inr (pkgs, reqs))))"
proof (intro conjI impI)
  show "\<forall>pkgs reqs.
            fetch_published_packages qs srv collections page_size (Some k) = Some (Inr (pkgs, reqs)) \<longrightarrow>
            int (length pkgs) \<le> k
            \<and> pkgs = take (nat k) (records_upto srv reqs (length reqs))
            \<and> int (length (records_upto srv reqs (length reqs - 1))) < k"
    using capped_result[OF pos] by blast
next
  assume h: "0 < page_size \<and> page_size \<le> MAX_PAGE_SIZE
        \<and> [c \<leftarrow> map strip collections. c \<noteq> []] \<noteq> []
        \<and> (\<forall>n c. wellformed_page qs (srv n c))
        \<and> (\<forall>n c s. page_next qs (srv n c) = Some s \<longrightarrow> page_records (srv n c) \<noteq> [])"
  then have "\<exists>r. fetch_published_packages qs srv collections page_size (Some k) = Some r"
    by (intro capped_discovery_terminates[OF pos]) blast
  then obtain r where r: "fetch_published_packages qs srv collections page_size (Some k) = Some r" ..
  from h have "\<exists>pkgs reqs. r = Inr (pkgs, reqs)"
    by (intro wellformed_result[OF _ _ _ _ r]) simp_all
  with r show "\<exists>pkgs reqs.
      fetch_published_packages qs srv collections page_size (Some k) = Some (Inr (pkgs, reqs))"
    by blast
qed

lemma endless_server_wellformed: "wellformed_page no_query (endless_server n c)"
  by (simp add: wellformed_page_def endless_server_def demo_page_def demo_item_def no_query_def
      next_offset_from_nextpage_def lookup_def)

lemma endless_server_rich: "page_records (endless_server n c) \<noteq> []"
  by (simp add: page_records_def endless_server_def demo_page_def demo_item_def
      good_records_Cons lookup_def py_or_def Let_def)

theorem max_records_cap_witness:
  "0 < (3::int)
   \<and> fetch_published_packages no_query endless_server [''BILLS''] 100 (Some 3) =
     Some (Inr ([demo_record ''A-1'', demo_record ''A-2'', demo_record ''A-1''], [''*'', ''*x'']))
   \<and> int (length [demo_record ''A-1'', demo_record ''A-2'', demo_record ''A-1'']) \<le> 3
   \<and> [demo_record ''A-1'', demo_record ''A-2'', demo_record ''A-1''] =
       take (nat 3) (records_upto endless_server [''*'', ''*x''] (length [''*'', ''*x'']))
   \<and> int (length (records_upto endless_server [''*'', ''*x''] (length [''*'', ''*x''] - 1))) < 3"
proof -
  have pos: "0 < (3::int)" by simp
  have valid: "0 < (100::int) \<and> (100::int) \<le> MAX_PAGE_SIZE
        \<and> [c \<leftarrow> map strip [''BILLS'']. c \<noteq> []] \<noteq> []"
    by (simp add: MAX_PAGE_SIZE_def strip_def py_isspace_def)
  from max_records_cap[OF pos, of no_query endless_server "[''BILLS'']" 100]
    valid endless_server_wellformed endless_server_rich
  obtain pkgs reqs where
    run: "fetch_published_packages no_query endless_server [''BILLS''] 100 (Some 3) =
        Some (Inr (pkgs, reqs))"
    and props: "int (length pkgs) \<le> 3
            \<and> pkgs = take (nat 3) (records_upto endless_server reqs (length reqs))
            \<and> int (length (records_upto endless_server reqs (length reqs - 1))) < 3"
    by blast
  from run endless_server_capped have
    "pkgs = [demo_record ''A-1'', demo_record ''A-2'', demo_record ''A-1'']" "reqs = [''*'', ''*x'']"
    by simp_all
  with run props pos show ?thesis by simp
qed

lemma find_items_error: "find_items data keys = Inl e \<Longrightarrow> e = AttributeError"
  by (induction keys) (auto split: sum.splits json.splits elim: dict_get.elims)

lemma item_record_error: "item_record item = Inl e \<Longrightarrow> e = AttributeError"
  by (cases item) (auto simp: Let_def split: if_splits)

lemma process_items_error: "process_items m items pkgs = Inl e \<Longrightarrow> e = AttributeError"
  by (induction items arbitrary: pkgs)
    (auto split: sum.splits option.splits if_splits dest: item_record_error)

lemma dict_get_error: "dict_get data k = Inl e \<Longrightarrow> e = AttributeError"
  by (cases data) auto

lemma next_offset_error:
  "next_offset_from_nextpage qs v = Inl e \<Longrightarrow> e \<in> {AttributeError, TypeError, ValueError}"
  by (auto simp: next_offset_from_nextpage_def split: if_splits json.splits option.splits list.splits)

lemma fetch_page_errors:
  "fetch_page qs srv m st = Exit (Inl e) \<Longrightarrow> e \<in> {AttributeError, TypeError, ValueError}"
  unfolding fetch_page_def Let_def
  by (auto simp del: find_items.simps process_items.simps
      dest: find_items_error process_items_error dict_get_error next_offset_error
      split: page_response.splits sum.splits if_splits prod.splits bool.splits json.splits)

lemma failing_server_run:
  "fetch_published_packages no_query failing_server [''BILLS''] 100 None =
     Some (Inr ([demo_record ''A-1''], [''*'', ''c1'']))"
  by (simp add: fetch_eval failing_server_def)

lemma run_to_loop:
  "run_to qs srv m n st = Some st' \<Longrightarrow> fetch_loop qs srv m st = fetch_loop qs srv m st'"
proof (induction n arbitrary: st)
  case 0
  then show ?case by simp
next
  case (Suc n)
  then obtain st1 where again: "fetch_page qs srv m st = Again st1"
    and rest: "run_to qs srv m n st1 = Some st'"
    by (auto split: loop_step.splits)
  from fetch_loop_Again[OF again] Suc.IH[OF rest] show ?case by simp
qed

lemma run_to_inv:
  "run_to qs srv m n st = Some st' \<Longrightarrow> fetch_inv qs srv st \<Longrightarrow>
   fetch_inv qs srv st' \<and> length (requested st') = length (requested st) + n"
proof (induction n arbitrary: st)
  case 0
  then show ?case by simp
next
  case (Suc n)
  then obtain st1 where again: "fetch_page qs srv m st = Again st1"
    and rest: "run_to qs srv m n st1 = Some st'"
    by (auto split: loop_step.splits)
  from fetch_page_AgainD[OF again] have len: "requested st1 = requested st @ [offset_mark st]"
    by (metis fetch_state.select_convs(4))
  from Suc.IH[OF rest fetch_inv_step[OF Suc.prems(2) again]] len show ?case by simp
qed

lemma fetch_page_failed:
  assumes "srv (length (requested st)) (offset_mark st) = RequestFailed
    \<or> srv (length (requested st)) (offset_mark st) = DecodeFailed"
  shows "fetch_page qs srv m st = Exit (Inr (packages st, requested st @ [offset_mark st]))"
  using assms by (auto simp: fetch_page_def Let_def)

text \<open>
  C6 (as amended).  In \<open>fetch_published_packages\<close>, when a run has made \<open>k\<close> requests
  that each led on to a next one and request number \<open>k\<close> fails with a network or a
  decoding error, discovery returns at that point, after \<open>k + 1\<close> requests: the
  list accumulated so far, which holds exactly the records of the \<open>k\<close> pages before
  the failure.
\<close>

theorem graceful_partial_results:
  assumes valid: "0 < page_size" "page_size \<le> MAX_PAGE_SIZE"
      "[c \<leftarrow> map strip collections. c \<noteq> []] \<noteq> []"
    and reach: "run_to qs srv max_packages k
        \<lparr>offset_mark = ''*'', seen_offsets = {}, packages = [], requested = []\<rparr> = Some st"
    and fail: "srv k (offset_mark st) = RequestFailed \<or> srv k (offset_mark st) = DecodeFailed"
  shows "fetch_published_packages qs srv collections page_size max_packages =
      Some (Inr (packages st, requested st @ [offset_mark st]))
    \<and> length (requested st @ [offset_mark st]) = Suc k
    \<and> packages st = records_upto srv (requested st @ [offset_mark st]) k"
proof -
  let ?st0 = "\<lparr>offset_mark = ''*'', seen_offsets = {}, packages = [], requested = []\<rparr>"
  from run_to_inv[OF reach fetch_inv_init] have inv: "fetch_inv qs srv st"
    and len: "length (requested st) = k" by simp_all
  from fail len have "fetch_page qs srv max_packages st =
      Exit (Inr (packages st, requested st @ [offset_mark st]))"
    by (intro fetch_page_failed) simp
  from fetch_loop_Exit[OF this] run_to_loop[OF reach]
  have "fetch_loop qs srv max_packages ?st0 =
      Some (Inr (packages st, requested st @ [offset_mark st]))" by simp
  with valid have "fetch_published_packages qs srv collections page_size max_packages =
      Some (Inr (packages st, requested st @ [offset_mark st]))"
    by (simp add: fetch_published_packages_def)
  moreover from inv len have "packages st = records_upto srv (requested st @ [offset_mark st]) k"
    by (simp add: fetch_inv_def)
  ultimately show ?thesis using len by simp
qed

theorem graceful_partial_results_witness:
  "run_to no_query failing_server None 1
        \<lparr>offset_mark = ''*'', seen_offsets = {}, packages = [], requested = []\<rparr> =
      Some \<lparr>offset_mark = ''c1'', seen_offsets = {''c1''}, packages = [demo_record ''A-1''],
            requested = [''*'']\<rparr>
   \<and> failing_server 1 ''c1'' = RequestFailed
   \<and> fetch_published_packages no_query failing_server [''BILLS''] 100 None =
     Some (Inr ([demo_record ''A-1''], [''*'', ''c1'']))
   \<and> [demo_record ''A-1''] = records_upto failing_server [''*'', ''c1''] 1"
proof -
  let ?st = "\<lparr>offset_mark = ''c1'', seen_offsets = {''c1''}, packages = [demo_record ''A-1''],
            requested = [''*'']\<rparr>"
  have reach: "run_to no_query failing_server None 1
        \<lparr>offset_mark = ''*'', seen_offsets = {}, packages = [], requested = []\<rparr> = Some ?st"
    by (simp add: fetch_page_def Let_def failing_server_def demo_page_def demo_item_def
        demo_record_def no_query_def next_offset_from_nextpage_def lookup_def py_or_def
        cap_reached_def)
  have fail: "failing_server 1 (offset_mark ?st) = RequestFailed
      \<or> failing_server 1 (offset_mark ?st) = DecodeFailed"
    by (simp add: failing_server_def)
  have valid: "0 < (100::int)" "(100::int) \<le> MAX_PAGE_SIZE"
      "[c \<leftarrow> map strip [''BILLS'']. c \<noteq> []] \<noteq> []"
    by (simp_all add: MAX_PAGE_SIZE_def strip_def py_isspace_def)
  from graceful_partial_results[OF valid reach fail]
  have "fetch_published_packages no_query failing_server [''BILLS''] 100 None =
     Some (Inr ([demo_record ''A-1''], [''*'', ''c1'']))"
    and "[demo_record ''A-1''] = records_upto failing_server [''*'', ''c1''] 1"
    by simp_all
  moreover have "failing_server 1 ''c1'' = RequestFailed" by (simp add: failing_server_def)
  ultimately show ?thesis using reach by blast
qed

theorem graceful_partial_results_counterexample:
  "fetch_packages_for_collection True sql_failing_server = Some (Inl RequestError)"
  by (simp add: sql_eval sql_loop.simps sql_failing_server_def)

text \<open>
  C7 (as amended).  Discovery does not remove duplicates: it returns the records of
  the pages it requested, in order and as often as the server sent them, cut off at
  the cap.  So the identifiers returned are pairwise distinct whenever those on the
  requested pages are.
\<close>

theorem no_deduplication:
  assumes run: "fetch_published_packages qs srv collections page_size max_packages =
      Some (Inr (pkgs, reqs))"
  shows "(\<exists>n. pkgs = take n (records_upto srv reqs (length reqs)))
    \<and> (max_packages = None \<longrightarrow> pkgs = records_upto srv reqs (length reqs))
    \<and> (distinct (map package_id (records_upto srv reqs (length reqs))) \<longrightarrow>
         distinct (map package_id pkgs))"
proof -
  from fetch_published_sound[OF run] obtain n rest where
    reqs: "reqs = ''*'' # rest"
    and pre: "pkgs = records_upto srv reqs (length reqs - 1) @
                  take n (page_records (srv (length reqs - 1) (last reqs)))"
    and stop: "cap_reached max_packages pkgs \<or> pkgs = records_upto srv reqs (length reqs)"
    unfolding fetch_post_def by auto
  have all: "records_upto srv reqs (length reqs) =
      records_upto srv reqs (length reqs - 1) @ page_records (srv (length reqs - 1) (last reqs))"
    using reqs records_upto_Suc[of srv reqs "length reqs - 1"] by (simp add: last_conv_nth)
  have tk: "pkgs = take (length pkgs) (records_upto srv reqs (length reqs))"
    using prefix_take[OF pre] all by simp
  then have 1: "\<exists>n. pkgs = take n (records_upto srv reqs (length reqs))" ..
  have 2: "max_packages = None \<longrightarrow> pkgs = records_upto srv reqs (length reqs)"
    using stop by (auto simp: cap_reached_def)
  have 3: "distinct (map package_id pkgs)"
    if "distinct (map package_id (records_upto srv reqs (length reqs)))"
  proof -
    from that have "distinct (take (length pkgs) (map package_id (records_upto srv reqs (length reqs))))"
      by (rule distinct_take)
    then show ?thesis using tk by (simp add: take_map)
  qed
  from 1 2 3 show ?thesis by blast
qed

theorem no_deduplication_witness:
  "fetch_published_packages no_query cycle_server [''BILLS''] 100 None =
     Some (Inr ([demo_record ''A-1'', demo_record ''A-2'', demo_record ''A-3''],
                [''*'', ''c1'', ''c2'']))
   \<and> [demo_record ''A-1'', demo_record ''A-2'', demo_record ''A-3''] =
       records_upto cycle_server [''*'', ''c1'', ''c2''] (length [''*'', ''c1'', ''c2''])
   \<and> distinct (map package_id [demo_record ''A-1'', demo_record ''A-2'', demo_record ''A-3''])"
proof (intro conjI)
  show "fetch_published_packages no_query cycle_server [''BILLS''] 100 None =
     Some (Inr ([demo_record ''A-1'', demo_record ''A-2'', demo_record ''A-3''],
                [''*'', ''c1'', ''c2'']))"
    by (rule cycle_server_run)
  show "[demo_record ''A-1'', demo_record ''A-2'', demo_record ''A-3''] =
       records_upto cycle_server [''*'', ''c1'', ''c2''] (length [''*'', ''c1'', ''c2''])"
    using no_deduplication[OF cycle_server_run] by blast
  show "distinct (map package_id [demo_record ''A-1'', demo_record ''A-2'', demo_record ''A-3''])"
    by (simp add: demo_record_def)
qed

theorem no_deduplication_counterexample:
  "fetch_published_packages no_query duplicate_server [''BILLS''] 100 None =
     Some (Inr ([demo_record ''A-1'', demo_record ''A-1''], [''*'', ''c1'']))
   \<and> \<not> distinct (map package_id [demo_record ''A-1'', demo_record ''A-1''])"
  by (simp add: fetch_eval duplicate_server_def)

lemma process_items_acc:
  "process_items None items acc =
     (case process_items None items [] of Inl e \<Rightarrow> Inl e | Inr (c, rs) \<Rightarrow> Inr (c, acc @ rs))"
proof (induction items arbitrary: acc)
  case Nil
  show ?case by simp
next
  case (Cons item items)
  show ?case
  proof (cases "item_record item")
    case (Inl e)
    then show ?thesis by simp
  next
    case (Inr ro)
    show ?thesis
    proof (cases ro)
      case None
      with Inr Cons.IH[of acc] show ?thesis by simp
    next
      case (Some r)
      with Inr Cons.IH[of "acc @ [r]"] Cons.IH[of "[r]"] show ?thesis
        by (simp add: cap_reached_def split: sum.splits prod.splits)
    qed
  qed
qed

lemma fetch_page_follow:
  assumes "srv (length (requested st)) (offset_mark st) = Page data"
    and "find_items data [''packages'', ''results'', ''records''] = Inr items"
    and "process_items m items (packages st) = Inr (False, pkgs)"
    and "page_next qs (Page data) = Some s"
  shows "fetch_page qs srv m st =
     (if s \<in> seen_offsets st then Exit (Inr (pkgs, requested st @ [offset_mark st]))
      else Again \<lparr>offset_mark = s, seen_offsets = insert s (seen_offsets st),
                  packages = pkgs, requested = requested st @ [offset_mark st]\<rparr>)"
  using assms unfolding fetch_page_def Let_def page_next_def
  by (auto simp del: find_items.simps process_items.simps
      split: sum.splits if_splits json.splits list.splits)

text \<open>
  C10.  The set of seen cursors starts empty, without the initial \<open>*\<close>.  So when the
  first page names \<open>*\<close> as its next cursor, and the server answers \<open>*\<close> the second
  time as the first, discovery requests that page twice, returns its records twice,
  and stops only when \<open>*\<close> comes back the second time.
\<close>

theorem sentinel_not_in_history:
  assumes first: "srv 0 ''*'' = Page data" and second: "srv 1 ''*'' = Page data"
    and items: "find_items data [''packages'', ''results'', ''records''] = Inr items"
    and recs: "process_items None items [] = Inr (False, recs)"
    and nxt: "page_next qs (Page data) = Some ''*''"
    and valid: "0 < page_size" "page_size \<le> MAX_PAGE_SIZE"
      "[c \<leftarrow> map strip collections. c \<noteq> []] \<noteq> []"
  shows "fetch_published_packages qs srv collections page_size None =
     Some (Inr (recs @ recs, [''*'', ''*'']))"
proof -
  let ?st0 = "\<lparr>offset_mark = ''*'', seen_offsets = {}, packages = [], requested = []\<rparr>"
  let ?st1 = "\<lparr>offset_mark = ''*'', seen_offsets = {''*''}, packages = recs, requested = [''*'']\<rparr>"
  have p0: "fetch_page qs srv None ?st0 = Again ?st1"
    using fetch_page_follow[of srv ?st0 data items None recs qs "''*''"] first items recs nxt
    by simp
  have recs2: "process_items None items recs = Inr (False, recs @ recs)"
    by (subst process_items_acc) (simp add: recs)
  have p1: "fetch_page qs srv None ?st1 = Exit (Inr (recs @ recs, [''*'', ''*'']))"
    using fetch_page_follow[of srv ?st1 data items None "recs @ recs" qs "''*''"]
      second items recs2 nxt
    by simp
  have "fetch_loop qs srv None ?st0 = Some (Inr (recs @ recs, [''*'', ''*'']))"
    using fetch_loop_Again[OF p0] fetch_loop_Exit[OF p1] by simp
  with valid show ?thesis by (simp add: fetch_published_packages_def)
qed

theorem sentinel_not_in_history_witness:
  "fetch_published_packages no_query star_server [''BILLS''] 100 None =
     Some (Inr ([demo_record ''A-1''] @ [demo_record ''A-1''], [''*'', ''*'']))"
  by (rule sentinel_not_in_history[where
        data = "JObj [(''packages'', JArr [demo_item ''A-1'']), (''nextPage'', JStr ''*'')]"
        and items = "[demo_item ''A-1'']"])
    (simp_all add: star_server_def demo_page_def demo_item_def demo_record_def page_next_def
      no_query_def next_offset_from_nextpage_def lookup_def py_or_def cap_reached_def
      MAX_PAGE_SIZE_def strip_def py_isspace_def Let_def)

section \<open>Properties of the driver\<close>

lemma dpf_absent:
  assumes "summary_of env (package_id bad) = RequestFailed \<or> summary_of env (package_id bad) = DecodeFailed"
  shows "download_package_formats env bad formats base dry_run = Inr []"
  using assms by (auto simp: download_package_formats_def fetch_package_summary_def Let_def)

lemma process_packages_append:
  "process_packages env (pre @ post) formats base dry_run =
     (case process_packages env pre formats base dry_run of
        Inl e \<Rightarrow> Inl e
      | Inr evs \<Rightarrow> map_sum id (\<lambda>rest. evs @ rest) (process_packages env post formats base dry_run))"
proof (induction pre)
  case Nil
  show ?case by (cases "process_packages env post formats base dry_run") simp_all
next
  case (Cons p pre)
  show ?case
    by (cases "download_package_formats env p formats base dry_run";
        cases "process_packages env pre formats base dry_run";
        cases "process_packages env post formats base dry_run")
      (simp_all add: Cons.IH)
qed

lemmas driver_eval =
  download_package_formats_def fetch_package_summary_def Let_def demo_env_def demo_summary_def
  demo_url_def demo_record_def demo_item_def demo_download_def data_dir_def
  strip_def py_isspace_def lower_def py_lower_def py_or_def lookup_def DOWNLOAD_KEY_MAP_def
  package_collection_code_def collection_code_str_def package_year_from_date_def
  year_str_def strptime_year_def parse_ymd_def parse_hms_def cut_def num_field_def day_field_def
  is_digit_def py_isdigit_def str_value_def days_in_month_def is_leap_def str_nat.simps digit_char_def
  path_div_def path_components_def path_root_def name_str_def
  download_with_retries_def dl_loop.simps try_attempt_def

text \<open>
  When the summary request of a record fails, or its answer cannot be decoded,
  \<open>fetch_package_summary\<close> gives \<open>None\<close>: the driver does nothing for that record
  (no download, no plan) and goes on, so that the whole run is the run without that
  record.
\<close>

lemma failed_fetch_skipped:
  assumes "summary_of env (package_id bad) = RequestFailed \<or> summary_of env (package_id bad) = DecodeFailed"
  shows "download_package_formats env bad formats base dry_run = Inr []
    \<and> process_packages env (pre @ bad # post) formats base dry_run =
       process_packages env (pre @ post) formats base dry_run"
proof -
  have absent: "download_package_formats env bad formats base dry_run = Inr []"
    using assms by (rule dpf_absent)
  have "process_packages env (bad # post) formats base dry_run =
        process_packages env post formats base dry_run"
    by (cases "process_packages env post formats base dry_run") (simp_all add: absent)
  then have "process_packages env (pre @ bad # post) formats base dry_run =
       process_packages env (pre @ post) formats base dry_run"
    by (simp only: process_packages_append[of env pre "bad # post"]
        process_packages_append[of env pre post])
  with absent show ?thesis by simp
qed

lemma failed_fetch_batch:
  "process_packages demo_env (map demo_record [''A-1'', ''A-2'', ''A-3'', ''A-4'', ''A-5''])
     [''pdf'', ''xml''] data_dir False =
   Inr [demo_download ''A-1'' ''A'', demo_download ''A-2'' ''A'',
        demo_download ''A-4'' ''A'', demo_download ''A-5'' ''A'']"
  by (simp add: driver_eval)

text \<open>
  C8.  A summary that arrives and decodes is used as it is.  When it is not a JSON
  object (a list, say), \<open>summary.get\<close> raises AttributeError; when its \<open>download\<close>
  member is a string, \<open>download_info.get\<close> does.  Nothing catches the exception in
  \<open>download_package_formats\<close> or in the loop over the records: of five records of
  which the third has such a summary, the last two are never processed and the run
  ends with the exception.
\<close>

theorem malformed_summary_aborts_run:
  "download_package_formats (demo_env\<lparr>summary_of := malformed_summary (JArr [JStr ''error''])\<rparr>)
     (demo_record ''A-3'') [''pdf'', ''xml''] data_dir False = Inl AttributeError
   \<and> process_packages (demo_env\<lparr>summary_of := malformed_summary (JArr [JStr ''error''])\<rparr>)
       (map demo_record [''A-1'', ''A-2'', ''A-3'', ''A-4'', ''A-5''])
       [''pdf'', ''xml''] data_dir False = Inl AttributeError
   \<and> process_packages
       (demo_env\<lparr>summary_of := malformed_summary (JObj [(''download'', JStr ''unavailable'')])\<rparr>)
       (map demo_record [''A-1'', ''A-2'', ''A-3'', ''A-4'', ''A-5''])
       [''pdf'', ''xml''] data_dir False = Inl AttributeError"
  by (simp add: driver_eval malformed_summary_def)







lemma is_digit_not_slash: "is_digit c \<Longrightarrow> c \<noteq> CHR ''/'' \<and> c \<noteq> CHR ''.''"
  by (auto simp: is_digit_def)






















end
